theory Spec2Isabelle
  imports Main "HOL-Library.List_Lexorder" "HOL-Library.Char_ord"
begin

section \<open>Data model (types.ts)\<close>

text \<open>
  The enums and the \<open>Task\<close> interface of the functions' \<open>types\<close> module. A JavaScript
  \<open>Date\<close> is its number of milliseconds since the epoch, an \<open>int\<close>. An optional field
  (\<open>description?\<close>, \<open>dueDate?\<close>, \<open>completedOn?\<close>) is an \<open>option\<close>. The field \<open>id\<close> is
  named \<open>id_task\<close> here, since \<open>id\<close> is the identity function of HOL.

  The handlers and jobs read a document with \<open>doc.data() as Task\<close>, which checks
  nothing. A document stored without the field \<open>id\<close> (\<open>createTask\<close> of the client
  stores none) is read with \<open>task.id\<close> undefined; it is the task with \<open>id_task = ''''\<close>
  here. \<open>doc(undefined)\<close> and \<open>doc('''')\<close> both raise, as the commit of an update to a
  document that does not exist does, and no document has the empty name: each way the
  \<open>catch\<close> of the job is reached with the batch not committed.
\<close>

datatype TaskStatus = BACKLOG | TODAY | DONE | ARCHIVE

datatype Priority = P1 | P2 | P3 | P4

record Task =
  id_task :: string
  projectId :: string
  owner :: string
  title :: string
  description :: "string option"
  priority :: Priority
  status :: TaskStatus
  createdOn :: int
  dueDate :: "int option"
  completedOn :: "int option"

record WipLimits =
  p1MaxToday :: nat
  p2MaxToday :: nat

definition DEFAULT_WIP_LIMITS :: WipLimits where
  "DEFAULT_WIP_LIMITS = \<lparr>p1MaxToday = 3, p2MaxToday = 5\<rparr>"

definition STALE_TASK_DAYS :: int where
  "STALE_TASK_DAYS = 90"

section \<open>The \<open>tasks\<close> collection\<close>

text \<open>
  The collection is the list of its documents, each a document name paired with its data,
  in the order of the document names, which is the order in which Firestore returns the
  documents of a query without \<open>orderBy\<close> and the order in which it breaks the ties of an
  \<open>orderBy\<close>. A document's name (\<open>doc.ref\<close>, \<open>snapshot.ref\<close>) and the field \<open>id\<close> of its
  data are two things in the source: the handlers and the first phase of the triage write
  through \<open>doc.ref\<close>, the promotion phase through \<open>doc(task.id)\<close>.
\<close>

type_synonym doc = "string \<times> Task"

type_synonym store = "doc list"

datatype error = NOT_FOUND | ALREADY_EXISTS

text \<open>The partial documents passed to \<open>update\<close>: \<open>{status: ...}\<close> and \<open>{completedOn: ...}\<close>.\<close>

datatype fields = StatusField TaskStatus | CompletedOnField int

datatype writeOp = WDelete string | WSet string Task | WUpdate string fields

definition getDoc :: "store \<Rightarrow> string \<Rightarrow> Task option" where
  "getDoc s d = map_of s d"

fun applyFields :: "fields \<Rightarrow> Task \<Rightarrow> Task" where
  "applyFields (StatusField st) t = t\<lparr>status := st\<rparr>"
| "applyFields (CompletedOnField c) t = t\<lparr>completedOn := Some c\<rparr>"

text \<open>\<open>ref.delete()\<close>: removes the document; succeeds when there is none.\<close>

definition deleteDoc :: "store \<Rightarrow> string \<Rightarrow> store" where
  "deleteDoc s d = filter (\<lambda>kv. fst kv \<noteq> d) s"

text \<open>\<open>ref.set(data)\<close>: overwrites the whole document, or creates it.\<close>

definition setDoc :: "store \<Rightarrow> string \<Rightarrow> Task \<Rightarrow> store" where
  "setDoc s d t =
     (if getDoc s d = None then insort_key fst (d, t) s
      else map (\<lambda>kv. if fst kv = d then (d, t) else kv) s)"

text \<open>\<open>ref.update(fields)\<close>: overwrites the given fields; fails when there is no document.\<close>

definition updateDoc :: "store \<Rightarrow> string \<Rightarrow> fields \<Rightarrow> error + store" where
  "updateDoc s d f =
     (if getDoc s d = None then Inl NOT_FOUND
      else Inr (map (\<lambda>kv. if fst kv = d then (d, applyFields f (snd kv)) else kv) s))"

fun applyWrite :: "store \<Rightarrow> writeOp \<Rightarrow> error + store" where
  "applyWrite s (WDelete d) = Inr (deleteDoc s d)"
| "applyWrite s (WSet d t) = Inr (setDoc s d t)"
| "applyWrite s (WUpdate d f) = updateDoc s d f"

text \<open>
  \<open>batch.commit()\<close>: the writes of the batch in their order, all or nothing: on a failure
  the caller keeps the store it had. No bound on the number of writes of a batch is
  modelled.
\<close>

fun commit :: "store \<Rightarrow> writeOp list \<Rightarrow> error + store" where
  "commit s [] = Inr s"
| "commit s (w # ws) =
     (case applyWrite s w of Inl e \<Rightarrow> Inl e | Inr s' \<Rightarrow> commit s' ws)"

section \<open>WIP limit enforcement (index.ts)\<close>

text \<open>The query of \<open>checkWipLimits\<close> and the size of its snapshot.\<close>

definition currentTasksQuery :: "store \<Rightarrow> string \<Rightarrow> Priority \<Rightarrow> doc list" where
  "currentTasksQuery s userId prio =
     filter (\<lambda>kv. owner (snd kv) = userId \<and> status (snd kv) = TODAY \<and> priority (snd kv) = prio) s"

definition wipLimit :: "Priority \<Rightarrow> nat" where
  "wipLimit prio =
     (if prio = P1 then p1MaxToday DEFAULT_WIP_LIMITS else p2MaxToday DEFAULT_WIP_LIMITS)"

definition checkWipLimits :: "store \<Rightarrow> string \<Rightarrow> Priority \<Rightarrow> bool" where
  "checkWipLimits s userId prio =
     (if prio \<noteq> P1 \<and> prio \<noteq> P2 then False
      else
        let currentCount = length (currentTasksQuery s userId prio);
            limit = wipLimit prio
        in currentCount + 1 > limit)"

text \<open>
  \<open>enforceWipOnCreate\<close>. The event carries the snapshot of the created document, or
  nothing; the store is the collection when the handler runs, the created document in it.
\<close>

fun enforceWipOnCreate :: "store \<Rightarrow> doc option \<Rightarrow> store" where
  "enforceWipOnCreate s None = s"
| "enforceWipOnCreate s (Some (ref, newTask)) =
     (if status newTask \<noteq> TODAY then s
      else if checkWipLimits s (owner newTask) (priority newTask) then deleteDoc s ref
      else s)"

text \<open>
  \<open>enforceWipOnUpdate\<close>, its two blocks in the order of the source: the admission block
  (the revert of a move into Today over the limit), then the completion block (the stamp of
  \<open>completedOn\<close>, at the time \<open>now\<close> that \<open>new Date()\<close> reads).
\<close>

definition admissionOnUpdate :: "store \<Rightarrow> string \<Rightarrow> Task \<Rightarrow> Task \<Rightarrow> store" where
  "admissionOnUpdate s ref beforeData afterData =
     (let wasInToday = (status beforeData = TODAY);
          nowInToday = (status afterData = TODAY)
      in if \<not> wasInToday \<and> nowInToday then
           (if checkWipLimits s (owner afterData) (priority afterData)
            then setDoc s ref beforeData
            else s)
         else s)"

definition completionOnUpdate :: "int \<Rightarrow> store \<Rightarrow> string \<Rightarrow> Task \<Rightarrow> Task \<Rightarrow> error + store" where
  "completionOnUpdate now s ref beforeData afterData =
     (if status beforeData \<noteq> DONE \<and> status afterData = DONE
      then updateDoc s ref (CompletedOnField now)
      else Inr s)"

fun enforceWipOnUpdate :: "int \<Rightarrow> store \<Rightarrow> (string \<times> Task \<times> Task) option \<Rightarrow> error + store" where
  "enforceWipOnUpdate now s None = Inr s"
| "enforceWipOnUpdate now s (Some (ref, beforeData, afterData)) =
     completionOnUpdate now (admissionOnUpdate s ref beforeData afterData) ref beforeData afterData"

section \<open>Daily triage (index.ts)\<close>

definition todayTasksQuery :: "store \<Rightarrow> doc list" where
  "todayTasksQuery s = filter (\<lambda>kv. status (snd kv) = TODAY \<and> status (snd kv) \<noteq> DONE) s"

text \<open>\<open>orderBy("createdOn", "asc")\<close>: a stable sort, ties staying in document-name order.\<close>

definition backlogTasksQuery :: "store \<Rightarrow> doc list" where
  "backlogTasksQuery s = sort_key (\<lambda>kv. createdOn (snd kv)) (filter (\<lambda>kv. status (snd kv) = BACKLOG) s)"

text \<open>
  \<open>tasksByUser\<close>: the object from owner to that owner's tasks, as the list of its entries
  in the order the keys were added (the order \<open>Object.entries\<close> gives them for the keys that
  are not array indices; every write of the loop is the same partial document, to a document
  of its own, so the order of the entries does not reach the store).
\<close>

fun pushTask :: "(string \<times> Task list) list \<Rightarrow> Task \<Rightarrow> (string \<times> Task list) list" where
  "pushTask [] task = [(owner task, [task])]"
| "pushTask ((userId, userTasks) # rest) task =
     (if userId = owner task then (userId, userTasks @ [task]) # rest
      else (userId, userTasks) # pushTask rest task)"

definition groupByUser :: "doc list \<Rightarrow> (string \<times> Task list) list" where
  "groupByUser docs = foldl pushTask [] (map snd docs)"

text \<open>The body of the loop over the entries: the writes it adds to \<open>batch2\<close>.\<close>

definition promoteUser :: "Task list \<Rightarrow> writeOp list" where
  "promoteUser userTasks =
     (let p1Tasks = filter (\<lambda>t. priority t = P1) userTasks;
          p2Tasks = filter (\<lambda>t. priority t = P2) userTasks;
          p1ToPromote = take (p1MaxToday DEFAULT_WIP_LIMITS) p1Tasks;
          p2ToPromote = take (p2MaxToday DEFAULT_WIP_LIMITS) p2Tasks
      in map (\<lambda>task. WUpdate (id_task task) (StatusField TODAY)) p1ToPromote
         @ map (\<lambda>task. WUpdate (id_task task) (StatusField TODAY)) p2ToPromote)"

definition batch1 :: "store \<Rightarrow> writeOp list" where
  "batch1 s = map (\<lambda>kv. WUpdate (fst kv) (StatusField BACKLOG)) (todayTasksQuery s)"

definition batch2 :: "store \<Rightarrow> writeOp list" where
  "batch2 s = concat (map (\<lambda>entry. promoteUser (snd entry)) (groupByUser (backlogTasksQuery s)))"

text \<open>Step 1 of the job, and steps 2 and 3: each builds its batch and commits it.\<close>

definition demoteToday :: "store \<Rightarrow> error + store" where
  "demoteToday s = commit s (batch1 s)"

definition promoteBacklog :: "store \<Rightarrow> error + store" where
  "promoteBacklog s = commit s (batch2 s)"

text \<open>
  \<open>dailyTriage\<close>: the store it leaves and the error its \<open>catch\<close> logs, if any. A failed
  second commit leaves the first one in place.
\<close>

definition dailyTriage :: "store \<Rightarrow> store \<times> error option" where
  "dailyTriage s =
     (case demoteToday s of
        Inl e \<Rightarrow> (s, Some e)
      | Inr s1 \<Rightarrow>
          (case promoteBacklog s1 of
             Inl e \<Rightarrow> (s1, Some e)
           | Inr s2 \<Rightarrow> (s2, None)))"

section \<open>Archive of stale tasks (index.ts)\<close>

text \<open>
  \<open>cutoffDate.setDate(cutoffDate.getDate() - STALE_TASK_DAYS)\<close>: the same time of day that
  many days earlier, in the local time of the runtime, which is UTC: days of 86400000 ms.
\<close>

definition cutoffDate :: "int \<Rightarrow> int" where
  "cutoffDate now = now - STALE_TASK_DAYS * 86400000"

definition staleTasksQuery :: "int \<Rightarrow> store \<Rightarrow> doc list" where
  "staleTasksQuery now s =
     filter (\<lambda>kv. status (snd kv) = BACKLOG \<and> createdOn (snd kv) < cutoffDate now) s"

definition archiveBatch :: "doc list \<Rightarrow> writeOp list" where
  "archiveBatch docs = map (\<lambda>kv. WUpdate (fst kv) (StatusField ARCHIVE)) docs"

text \<open>\<open>archiveOldTasks\<close>: the store it leaves and the error its \<open>catch\<close> logs, if any.\<close>

definition archiveOldTasks :: "int \<Rightarrow> store \<Rightarrow> store \<times> error option" where
  "archiveOldTasks now s =
     (let staleTasksSnapshot = staleTasksQuery now s
      in if staleTasksSnapshot = [] then (s, None)
         else (case commit s (archiveBatch staleTasksSnapshot) of
                 Inl e \<Rightarrow> (s, Some e)
               | Inr s' \<Rightarrow> (s', None)))"

section \<open>Conditions on a collection\<close>

text \<open>Document names are unique.\<close>

definition distinctDocs :: "store \<Rightarrow> bool" where
  "distinctDocs s = distinct (map fst s)"

text \<open>
  No task's field \<open>id\<close> names another document of the collection: it is the name of the
  task's own document (\<open>id: string; // Firestore document ID\<close> in the interface), or it
  names no stored document, as the absent \<open>id\<close> of a document written by the client does.
\<close>

definition noStrayIds :: "store \<Rightarrow> bool" where
  "noStrayIds s =
     list_all (\<lambda>kv. id_task (snd kv) = fst kv \<or> getDoc s (id_task (snd kv)) = None) s"

section \<open>Client writes and their triggers\<close>

text \<open>
  What the store and the handlers do together on a write of the client, with no other
  write in between: \<open>addDoc\<close> stores the document under a name that is free and
  \<open>onDocumentCreated\<close> passes it to \<open>enforceWipOnCreate\<close>; a write to a stored document
  replaces its data and \<open>onDocumentUpdated\<close> passes the data before and after it to
  \<open>enforceWipOnUpdate\<close>.
\<close>

datatype clientWrite = Create string Task | Update string Task

fun clientStep :: "int \<Rightarrow> store \<Rightarrow> clientWrite \<Rightarrow> error + store" where
  "clientStep now s (Create d t) =
     (if getDoc s d = None then Inr (enforceWipOnCreate (setDoc s d t) (Some (d, t)))
      else Inl ALREADY_EXISTS)"
| "clientStep now s (Update d a) =
     (case getDoc s d of
        None \<Rightarrow> Inl NOT_FOUND
      | Some b \<Rightarrow> enforceWipOnUpdate now (setDoc s d a) (Some (d, b, a)))"

fun clientRun :: "int \<Rightarrow> store \<Rightarrow> clientWrite list \<Rightarrow> error + store" where
  "clientRun now s [] = Inr s"
| "clientRun now s (w # ws) =
     (case clientStep now s w of Inl e \<Rightarrow> Inl e | Inr s' \<Rightarrow> clientRun now s' ws)"

section \<open>The specification's words\<close>

text \<open>
  The first \<open>n\<close> Queued tasks of priority \<open>p\<close>, in ascending \<open>createdOn\<close> order, within
  the Queued tasks of owner \<open>u\<close>.
\<close>

definition firstQueued :: "store \<Rightarrow> string \<Rightarrow> Priority \<Rightarrow> nat \<Rightarrow> doc list" where
  "firstQueued s u p n =
     take n (sort_key (\<lambda>kv. createdOn (snd kv))
       (filter (\<lambda>kv. status (snd kv) = BACKLOG \<and> owner (snd kv) = u \<and> priority (snd kv) = p) s))"

definition promotable :: "store \<Rightarrow> doc \<Rightarrow> bool" where
  "promotable s kv =
     (kv \<in> set (firstQueued s (owner (snd kv)) P1 (p1MaxToday DEFAULT_WIP_LIMITS))
      \<or> kv \<in> set (firstQueued s (owner (snd kv)) P2 (p2MaxToday DEFAULT_WIP_LIMITS)))"

text \<open>Every task among those first Queued ones has the name of its document as its \<open>id\<close>.\<close>

definition promotableOwnIds :: "store \<Rightarrow> bool" where
  "promotableOwnIds s = list_all (\<lambda>kv. promotable s kv \<longrightarrow> id_task (snd kv) = fst kv) s"

text \<open>The count of Active tasks of an owner and a priority.\<close>

definition activeCount :: "store \<Rightarrow> string \<Rightarrow> Priority \<Rightarrow> nat" where
  "activeCount s u p =
     length (filter (\<lambda>kv. owner (snd kv) = u \<and> status (snd kv) = TODAY \<and> priority (snd kv) = p) s)"

section \<open>What the batches do to the store\<close>

definition demoted :: "store \<Rightarrow> store" where
  "demoted s =
     map (\<lambda>kv. if status (snd kv) = TODAY then (fst kv, (snd kv)\<lparr>status := BACKLOG\<rparr>) else kv) s"

definition promoted :: "store \<Rightarrow> store" where
  "promoted s =
     map (\<lambda>kv. if promotable s kv then (fst kv, (snd kv)\<lparr>status := TODAY\<rparr>) else kv) s"

definition promotedIds :: "store \<Rightarrow> string list" where
  "promotedIds s =
     concat (map (\<lambda>entry.
         map id_task (take (p1MaxToday DEFAULT_WIP_LIMITS) (filter (\<lambda>t. priority t = P1) (snd entry)))
       @ map id_task (take (p2MaxToday DEFAULT_WIP_LIMITS) (filter (\<lambda>t. priority t = P2) (snd entry))))
       (groupByUser (backlogTasksQuery s)))"

definition archived :: "int \<Rightarrow> store \<Rightarrow> store" where
  "archived now s =
     map (\<lambda>kv. if status (snd kv) = BACKLOG \<and> createdOn (snd kv) < cutoffDate now
                then (fst kv, (snd kv)\<lparr>status := ARCHIVE\<rparr>) else kv) s"

section \<open>Example collections\<close>

definition exampleTask :: "string \<Rightarrow> string \<Rightarrow> Priority \<Rightarrow> TaskStatus \<Rightarrow> int \<Rightarrow> doc" where
  "exampleTask d u p st c =
     (d, \<lparr>id_task = d, projectId = ''proj'', owner = u, title = ''title'', description = None,
          priority = p, status = st, createdOn = c, dueDate = None, completedOn = None\<rparr>)"

text \<open>
  The scenario of the specification (owner \<open>U\<close> with four Queued P1 tasks of days 1 to 4)
  among tasks of other priorities, statuses and owners.
\<close>

definition exampleStore :: store where
  "exampleStore =
     [exampleTask ''t1'' ''U'' P1 BACKLOG 1, exampleTask ''t2'' ''U'' P1 BACKLOG 2,
      exampleTask ''t3'' ''U'' P1 BACKLOG 3, exampleTask ''t4'' ''U'' P1 BACKLOG 4,
      exampleTask ''t5'' ''U'' P3 TODAY 0, exampleTask ''t6'' ''V'' P2 ARCHIVE 0,
      exampleTask ''t7'' ''V'' P2 BACKLOG 5, exampleTask ''t8'' ''V'' P4 BACKLOG 0]"

text \<open>A collection at its limit for owner \<open>U\<close> and priority P1, with one more P1 task queued.\<close>

definition fullStore :: store where
  "fullStore =
     [exampleTask ''a1'' ''U'' P1 TODAY 1, exampleTask ''a2'' ''U'' P1 TODAY 2,
      exampleTask ''a3'' ''U'' P1 TODAY 3, exampleTask ''q1'' ''U'' P1 BACKLOG 4]"

text \<open>Old and recent tasks, for the archive at the time 7776001000 (cutoff 1000).\<close>

definition agedStore :: store where
  "agedStore =
     [exampleTask ''o1'' ''U'' P1 BACKLOG 1000, exampleTask ''o2'' ''U'' P3 TODAY 1000,
      exampleTask ''o3'' ''V'' P2 BACKLOG 7776001000, exampleTask ''o4'' ''V'' P2 ARCHIVE 5,
      exampleTask ''o5'' ''V'' P4 BACKLOG 999]"

text \<open>
  Two Active P1 tasks of owner \<open>U\<close> and a queued one: one below the limit of three.
\<close>

definition twoActive :: store where
  "twoActive = [exampleTask ''a1'' ''U'' P1 TODAY 1, exampleTask ''a2'' ''U'' P1 TODAY 2,
                exampleTask ''q1'' ''U'' P1 BACKLOG 4]"

text \<open>
  A history of client writes from the empty collection: four tasks created Active with
  priority P3, their priority then edited to P1 while they are Active, and a fifth task
  created Active with priority P1; and the collection the history ends in.
\<close>

definition capTask :: "Priority \<Rightarrow> Task" where
  "capTask p = \<lparr>id_task = '''', projectId = '''', owner = ''U'', title = ''title'', description = None,
     priority = p, status = TODAY, createdOn = 1, dueDate = None, completedOn = None\<rparr>"

definition overCapHistory :: "clientWrite list" where
  "overCapHistory =
     [Create ''c1'' (capTask P3), Create ''c2'' (capTask P3), Create ''c3'' (capTask P3),
      Create ''c4'' (capTask P3),
      Update ''c1'' (capTask P1), Update ''c2'' (capTask P1), Update ''c3'' (capTask P1),
      Update ''c4'' (capTask P1),
      Create ''c5'' (capTask P1)]"

definition overCapStore :: store where
  "overCapStore = [(''c1'', capTask P1), (''c2'', capTask P1), (''c3'', capTask P1), (''c4'', capTask P1)]"

text \<open>
  Tasks as \<open>createTask\<close> of the client stores them: no field \<open>id\<close>, no \<open>projectId\<close>. The
  history creates the tasks of \<open>exampleStore\<close> that way, from the empty collection, and
  \<open>clientStore\<close> is the collection it ends in.
\<close>

definition clientTask :: "string \<Rightarrow> Priority \<Rightarrow> TaskStatus \<Rightarrow> int \<Rightarrow> Task" where
  "clientTask u p st c =
     \<lparr>id_task = '''', projectId = '''', owner = u, title = ''title'', description = Some '''',
      priority = p, status = st, createdOn = c, dueDate = None, completedOn = None\<rparr>"

definition clientHistory :: "clientWrite list" where
  "clientHistory =
     [Create ''t1'' (clientTask ''U'' P1 BACKLOG 1), Create ''t2'' (clientTask ''U'' P1 BACKLOG 2),
      Create ''t3'' (clientTask ''U'' P1 BACKLOG 3), Create ''t4'' (clientTask ''U'' P1 BACKLOG 4),
      Create ''t5'' (clientTask ''U'' P3 TODAY 0), Create ''t6'' (clientTask ''V'' P2 ARCHIVE 0),
      Create ''t7'' (clientTask ''V'' P2 BACKLOG 5), Create ''t8'' (clientTask ''V'' P4 BACKLOG 0)]"

definition clientStore :: store where
  "clientStore =
     [(''t1'', clientTask ''U'' P1 BACKLOG 1), (''t2'', clientTask ''U'' P1 BACKLOG 2),
      (''t3'', clientTask ''U'' P1 BACKLOG 3), (''t4'', clientTask ''U'' P1 BACKLOG 4),
      (''t5'', clientTask ''U'' P3 TODAY 0), (''t6'', clientTask ''V'' P2 ARCHIVE 0),
      (''t7'', clientTask ''V'' P2 BACKLOG 5), (''t8'', clientTask ''V'' P4 BACKLOG 0)]"

text \<open>
  A queued P1 task whose field \<open>id\<close> is the name of another document, an Archived P3
  task.
\<close>

definition strayIdStore :: store where
  "strayIdStore =
     [(''h1'', (clientTask ''U'' P1 BACKLOG 1)\<lparr>id_task := ''h2''\<rparr>),
      (''h2'', (clientTask ''U'' P3 ARCHIVE 2)\<lparr>id_task := ''h2''\<rparr>)]"

section \<open>Lemmas\<close>

subsection \<open>Documents and single writes\<close>

lemma getDoc_None_iff: "getDoc s d = None \<longleftrightarrow> d \<notin> fst ` set s"
  by (simp add: getDoc_def map_of_eq_None_iff)

lemma getDoc_Some_mem: "getDoc s d = Some t \<Longrightarrow> (d, t) \<in> set s"
  by (simp add: getDoc_def map_of_SomeD)


lemma replace_same:
  "distinct (map fst s) \<Longrightarrow> (d, t) \<in> set s \<Longrightarrow> map (\<lambda>kv. if fst kv = d then (d, t) else kv) s = s"
proof -
  assume dist: "distinct (map fst s)" and mem: "(d, t) \<in> set s"
  have "\<And>kv. kv \<in> set s \<Longrightarrow> (if fst kv = d then (d, t) else kv) = kv"
  proof -
    fix kv assume "kv \<in> set s"
    with dist mem show "(if fst kv = d then (d, t) else kv) = kv"
      by (cases kv) (auto dest: eq_key_imp_eq_value)
  qed
  then show ?thesis by (simp add: map_idI)
qed

lemma setDoc_present:
  "getDoc s d \<noteq> None \<Longrightarrow> setDoc s d t = map (\<lambda>kv. if fst kv = d then (d, t) else kv) s"
  by (auto simp: setDoc_def)

lemma getDoc_replace:
  "getDoc (map (\<lambda>kv. if fst kv = d then (d, f (snd kv)) else kv) s) k =
     (if k = d then map_option f (getDoc s d) else getDoc s k)"
  unfolding getDoc_def by (induction s) auto

lemma setDoc_setDoc_back:
  assumes "distinctDocs s" and "getDoc s d = Some t"
  shows "setDoc (setDoc s d a) d t = s"
proof -
  let ?r = "\<lambda>x kv. if fst kv = d then (d, x) else kv"
  have mem: "(d, t) \<in> set s" using assms(2) by (rule getDoc_Some_mem)
  have 1: "setDoc s d a = map (?r a) s" using assms(2) by (simp add: setDoc_present)
  have "getDoc (map (?r a) s) d = Some a"
    using getDoc_replace [of d "\<lambda>_. a" s d] assms(2) by simp
  then have 2: "setDoc (map (?r a) s) d t = map (?r t) (map (?r a) s)"
    by (simp add: setDoc_present)
  have "map (?r t) (map (?r a) s) = map (?r t) s" by simp
  also have "\<dots> = s" using assms(1) mem by (simp add: replace_same distinctDocs_def)
  finally show ?thesis using 1 2 by simp
qed

lemma checkWipLimits_iff:
  "checkWipLimits s u p \<longleftrightarrow> (p = P1 \<or> p = P2) \<and> wipLimit p \<le> length (currentTasksQuery s u p)"
  by (auto simp: checkWipLimits_def Let_def)

lemma updateDoc_present:
  "getDoc s d \<noteq> None \<Longrightarrow>
   updateDoc s d f = Inr (map (\<lambda>kv. if fst kv = d then (d, applyFields f (snd kv)) else kv) s)"
  by (auto simp: updateDoc_def)

lemma keys_replace:
  "map fst (map (\<lambda>kv. if fst kv = d then (d, f (snd kv)) else kv) s) = map fst s"
  by (induction s) auto

subsection \<open>A batch of status updates\<close>

lemma commit_status_updates:
  "set ds \<subseteq> fst ` set s \<Longrightarrow>
   commit s (map (\<lambda>d. WUpdate d (StatusField st)) ds)
     = Inr (map (\<lambda>kv. if fst kv \<in> set ds then (fst kv, (snd kv)\<lparr>status := st\<rparr>) else kv) s)"
proof (induction ds arbitrary: s)
  case Nil
  then show ?case by simp
next
  case (Cons d ds)
  let ?s' = "map (\<lambda>kv. if fst kv = d then (d, applyFields (StatusField st) (snd kv)) else kv) s"
  from Cons.prems have "getDoc s d \<noteq> None" by (simp add: getDoc_None_iff)
  then have u: "updateDoc s d (StatusField st) = Inr ?s'" by (rule updateDoc_present)
  have keys: "fst ` set ?s' = fst ` set s"
    using keys_replace [of d "applyFields (StatusField st)" s]
    by (metis list.set_map)
  with Cons.prems have "set ds \<subseteq> fst ` set ?s'" by simp
  from Cons.IH [OF this] u show ?case
    by (simp add: comp_def)
qed

lemma batch1_eq:
  "batch1 s = map (\<lambda>d. WUpdate d (StatusField BACKLOG)) (map fst (todayTasksQuery s))"
  by (simp add: batch1_def comp_def)

lemma key_of_filter:
  assumes "distinct (map fst s)" and "kv \<in> set s"
  shows "fst kv \<in> fst ` set (filter P s) \<longleftrightarrow> P kv"
proof
  assume "fst kv \<in> fst ` set (filter P s)"
  then obtain kv' where kv': "kv' \<in> set s" "P kv'" "fst kv' = fst kv" by auto
  with assms have "kv' = kv"
    by (metis eq_key_imp_eq_value prod.collapse)
  with kv' show "P kv" by simp
next
  assume "P kv" with assms(2) show "fst kv \<in> fst ` set (filter P s)" by force
qed

lemma demoteToday_eq:
  assumes "distinctDocs s"
  shows "demoteToday s = Inr (demoted s)"
proof -
  let ?ds = "map fst (todayTasksQuery s)"
  have sub: "set ?ds \<subseteq> fst ` set s" by (auto simp: todayTasksQuery_def)
  have "map (\<lambda>kv. if fst kv \<in> set ?ds then (fst kv, (snd kv)\<lparr>status := BACKLOG\<rparr>) else kv) s = demoted s"
    unfolding demoted_def
  proof (rule map_cong [OF refl])
    fix kv assume "kv \<in> set s"
    with assms have "fst kv \<in> set ?ds \<longleftrightarrow> status (snd kv) = TODAY"
      using key_of_filter [of s kv "\<lambda>kv. status (snd kv) = TODAY \<and> status (snd kv) \<noteq> DONE"]
      by (auto simp: todayTasksQuery_def distinctDocs_def)
    then show "(if fst kv \<in> set ?ds then (fst kv, (snd kv)\<lparr>status := BACKLOG\<rparr>) else kv)
       = (if status (snd kv) = TODAY then (fst kv, (snd kv)\<lparr>status := BACKLOG\<rparr>) else kv)"
      by simp
  qed
  with commit_status_updates [OF sub, of BACKLOG] show ?thesis
    by (simp add: demoteToday_def batch1_eq)
qed

subsection \<open>The grouping by owner and the names the promotion writes to\<close>

lemma map_of_pushTask:
  "map_of (pushTask g t) =
     (map_of g)(owner t \<mapsto> (case map_of g (owner t) of None \<Rightarrow> [t] | Some old \<Rightarrow> old @ [t]))"
  by (induction g t rule: pushTask.induct) (auto simp: fun_eq_iff)

lemma keys_pushTask: "fst ` set (pushTask g t) = insert (owner t) (fst ` set g)"
  by (induction g t rule: pushTask.induct) auto

lemma distinct_pushTask: "distinct (map fst g) \<Longrightarrow> distinct (map fst (pushTask g t))"
  by (induction g t rule: pushTask.induct) (auto simp: keys_pushTask)

lemma distinct_group: "distinct (map fst (foldl pushTask [] ts))"
  by (induction ts rule: rev_induct) (simp_all add: distinct_pushTask)

lemma map_of_group:
  "map_of (foldl pushTask [] ts) u =
     (if u \<in> owner ` set ts then Some (filter (\<lambda>t. owner t = u) ts) else None)"
proof (induction ts rule: rev_induct)
  case Nil
  then show ?case by simp
next
  case (snoc t ts)
  have none: "\<And>v. v \<notin> owner ` set ts \<Longrightarrow> filter (\<lambda>t. owner t = v) ts = []"
    by (auto simp: filter_empty_conv)
  from snoc show ?case by (auto simp: map_of_pushTask none)
qed

lemma group_entries:
  "(u, uts) \<in> set (foldl pushTask [] ts) \<longleftrightarrow> u \<in> owner ` set ts \<and> uts = filter (\<lambda>t. owner t = u) ts"
proof -
  have "(u, uts) \<in> set (foldl pushTask [] ts) \<longleftrightarrow> map_of (foldl pushTask [] ts) u = Some uts"
    using distinct_group [of ts] by simp
  then show ?thesis by (auto simp: map_of_group)
qed

lemma batch2_eq: "batch2 s = map (\<lambda>d. WUpdate d (StatusField TODAY)) (promotedIds s)"
  by (simp add: batch2_def promotedIds_def promoteUser_def Let_def map_concat comp_def)

lemma take_filter_tasks:
  "take n (filter (\<lambda>t. priority t = p) (filter (\<lambda>t. owner t = u) (map snd (backlogTasksQuery s))))
     = map snd (firstQueued s u p n)"
proof -
  let ?c = "\<lambda>kv::doc. createdOn (snd kv)"
  let ?Q = "\<lambda>kv::doc. owner (snd kv) = u \<and> priority (snd kv) = p"
  let ?B = "\<lambda>kv::doc. status (snd kv) = BACKLOG"
  have "filter (\<lambda>t. priority t = p) (filter (\<lambda>t. owner t = u) (map snd (backlogTasksQuery s)))
      = map snd (filter ?Q (backlogTasksQuery s))"
    by (simp add: filter_map comp_def conj_commute)
  also have "filter ?Q (backlogTasksQuery s) = sort_key ?c (filter ?Q (filter ?B s))"
    by (simp only: backlogTasksQuery_def filter_sort)
  also have "filter ?Q (filter ?B s)
      = filter (\<lambda>kv. status (snd kv) = BACKLOG \<and> owner (snd kv) = u \<and> priority (snd kv) = p) s"
    by (simp add: conj_commute conj_left_commute)
  finally show ?thesis by (simp add: firstQueued_def take_map)
qed

lemma firstQueued_mem:
  "kv \<in> set (firstQueued s u p n) \<Longrightarrow>
     kv \<in> set s \<and> status (snd kv) = BACKLOG \<and> owner (snd kv) = u \<and> priority (snd kv) = p"
  unfolding firstQueued_def by (auto dest!: in_set_takeD)

lemma promotable_mem: "promotable s kv \<Longrightarrow> kv \<in> set s \<and> status (snd kv) = BACKLOG"
  unfolding promotable_def by (auto dest: firstQueued_mem)

lemma set_promotedIds:
  "set (promotedIds s) = (\<lambda>kv. id_task (snd kv)) ` {kv. promotable s kv}"
proof -
  let ?ts = "map snd (backlogTasksQuery s)"
  let ?n1 = "p1MaxToday DEFAULT_WIP_LIMITS" and ?n2 = "p2MaxToday DEFAULT_WIP_LIMITS"
  have owners: "\<And>kv. kv \<in> set s \<Longrightarrow> status (snd kv) = BACKLOG \<Longrightarrow> owner (snd kv) \<in> owner ` set ?ts"
    by (force simp: backlogTasksQuery_def)
  have "set (promotedIds s) =
      (\<Union>u \<in> owner ` set ?ts. id_task ` snd ` set (firstQueued s u P1 ?n1)
                           \<union> id_task ` snd ` set (firstQueued s u P2 ?n2))"
    (is "_ = ?R")
  proof -
    have "set (promotedIds s) =
      (\<Union>e \<in> set (foldl pushTask [] ?ts).
           id_task ` set (take ?n1 (filter (\<lambda>t. priority t = P1) (snd e)))
         \<union> id_task ` set (take ?n2 (filter (\<lambda>t. priority t = P2) (snd e))))"
      by (simp add: promotedIds_def groupByUser_def)
    also have "\<dots> = (\<Union>u \<in> owner ` set ?ts.
           id_task ` set (take ?n1 (filter (\<lambda>t. priority t = P1) (filter (\<lambda>t. owner t = u) ?ts)))
         \<union> id_task ` set (take ?n2 (filter (\<lambda>t. priority t = P2) (filter (\<lambda>t. owner t = u) ?ts))))"
      (is "?A = ?B")
    proof (rule set_eqI)
      fix x
      have "x \<in> ?A \<longleftrightarrow> (\<exists>u uts. (u, uts) \<in> set (foldl pushTask [] ?ts) \<and>
           (x \<in> id_task ` set (take ?n1 (filter (\<lambda>t. priority t = P1) uts))
            \<or> x \<in> id_task ` set (take ?n2 (filter (\<lambda>t. priority t = P2) uts))))"
        by force
      also have "\<dots> \<longleftrightarrow> x \<in> ?B"
        unfolding group_entries by blast
      finally show "x \<in> ?A \<longleftrightarrow> x \<in> ?B" .
    qed
    finally show ?thesis by (simp only: take_filter_tasks set_map)
  qed
  also have "?R = (\<lambda>kv. id_task (snd kv)) ` {kv. promotable s kv}"
  proof (rule set_eqI)
    fix x
    show "x \<in> ?R \<longleftrightarrow> x \<in> (\<lambda>kv. id_task (snd kv)) ` {kv. promotable s kv}"
    proof
      assume "x \<in> ?R"
      then obtain u kv where "(kv \<in> set (firstQueued s u P1 ?n1) \<or> kv \<in> set (firstQueued s u P2 ?n2))"
        and x: "x = id_task (snd kv)" by auto
      then have "promotable s kv"
        unfolding promotable_def by (auto dest: firstQueued_mem)
      with x show "x \<in> (\<lambda>kv. id_task (snd kv)) ` {kv. promotable s kv}" by blast
    next
      assume "x \<in> (\<lambda>kv. id_task (snd kv)) ` {kv. promotable s kv}"
      then obtain kv where p: "promotable s kv" and x: "x = id_task (snd kv)" by auto
      from promotable_mem [OF p] have "owner (snd kv) \<in> owner ` set ?ts" by (intro owners) simp_all
      with p x show "x \<in> ?R" unfolding promotable_def by blast
    qed
  qed
  finally show ?thesis .
qed

subsection \<open>The promotion: committed, or failed on an id that names no document\<close>

lemma distinctDocs_inj:
  "distinctDocs s \<Longrightarrow> kv \<in> set s \<Longrightarrow> kv' \<in> set s \<Longrightarrow> fst kv = fst kv' \<Longrightarrow> kv = kv'"
  unfolding distinctDocs_def
  by (metis eq_key_imp_eq_value prod.collapse)

lemma promotableOwnIdsD:
  "promotableOwnIds s \<Longrightarrow> promotable s kv \<Longrightarrow> id_task (snd kv) = fst kv"
  using promotable_mem [of s kv] by (auto simp: promotableOwnIds_def list_all_iff)

lemma promotedIds_iff:
  assumes "distinctDocs s" and "promotableOwnIds s" and "kv \<in> set s"
  shows "fst kv \<in> set (promotedIds s) \<longleftrightarrow> promotable s kv"
proof
  assume "fst kv \<in> set (promotedIds s)"
  then obtain kv' where p: "promotable s kv'" and k: "fst kv = id_task (snd kv')"
    unfolding set_promotedIds by auto
  from promotable_mem [OF p] have m: "kv' \<in> set s" by simp
  from k promotableOwnIdsD [OF assms(2) p] have "fst kv = fst kv'" by simp
  with assms(1,3) m have "kv = kv'" by (intro distinctDocs_inj)
  with p show "promotable s kv" by simp
next
  assume p: "promotable s kv"
  from promotableOwnIdsD [OF assms(2) p] p
  show "fst kv \<in> set (promotedIds s)"
    unfolding set_promotedIds by force
qed

lemma promoteBacklog_eq:
  assumes "distinctDocs s" and "promotableOwnIds s"
  shows "promoteBacklog s = Inr (promoted s)"
proof -
  have sub: "set (promotedIds s) \<subseteq> fst ` set s"
  proof
    fix x assume "x \<in> set (promotedIds s)"
    then obtain kv where p: "promotable s kv" and x: "x = id_task (snd kv)"
      unfolding set_promotedIds by auto
    from promotable_mem [OF p] have m: "kv \<in> set s" by simp
    from x promotableOwnIdsD [OF assms(2) p] have "x = fst kv" by simp
    with m show "x \<in> fst ` set s" by simp
  qed
  have "map (\<lambda>kv. if fst kv \<in> set (promotedIds s) then (fst kv, (snd kv)\<lparr>status := TODAY\<rparr>) else kv) s
      = promoted s"
    unfolding promoted_def
    by (rule map_cong [OF refl]) (simp add: promotedIds_iff [OF assms])
  with commit_status_updates [OF sub, of TODAY] show ?thesis
    by (simp add: promoteBacklog_def batch2_eq)
qed

lemma commit_status_updates_fail:
  "\<not> set ds \<subseteq> fst ` set s \<Longrightarrow>
   commit s (map (\<lambda>d. WUpdate d (StatusField st)) ds) = Inl NOT_FOUND"
proof (induction ds arbitrary: s)
  case Nil
  then show ?case by simp
next
  case (Cons d ds)
  show ?case
  proof (cases "d \<in> fst ` set s")
    case False
    then have "getDoc s d = None" by (simp add: getDoc_None_iff)
    then show ?thesis by (simp add: updateDoc_def)
  next
    case True
    let ?s' = "map (\<lambda>kv. if fst kv = d then (d, applyFields (StatusField st) (snd kv)) else kv) s"
    from True have "getDoc s d \<noteq> None" by (simp add: getDoc_None_iff)
    then have u: "updateDoc s d (StatusField st) = Inr ?s'" by (rule updateDoc_present)
    have keys: "fst ` set ?s' = fst ` set s"
      using keys_replace [of d "applyFields (StatusField st)" s]
      by (metis list.set_map)
    with Cons.prems True have "\<not> set ds \<subseteq> fst ` set ?s'" by simp
    from Cons.IH [OF this] u show ?thesis by simp
  qed
qed

lemma promoteBacklog_fail:
  assumes "noStrayIds s" and "\<not> promotableOwnIds s"
  shows "promoteBacklog s = Inl NOT_FOUND"
proof -
  from assms(2) obtain kv where m: "kv \<in> set s" and p: "promotable s kv"
    and ne: "id_task (snd kv) \<noteq> fst kv"
    by (auto simp: promotableOwnIds_def list_all_iff)
  from assms(1) m ne have "getDoc s (id_task (snd kv)) = None"
    by (auto simp: noStrayIds_def list_all_iff)
  then have "id_task (snd kv) \<notin> fst ` set s" by (simp add: getDoc_None_iff)
  moreover from p have "id_task (snd kv) \<in> set (promotedIds s)"
    unfolding set_promotedIds by blast
  ultimately have "\<not> set (promotedIds s) \<subseteq> fst ` set s" by blast
  from commit_status_updates_fail [OF this, of TODAY] show ?thesis
    by (simp add: promoteBacklog_def batch2_eq)
qed

lemma keys_demoted: "map fst (demoted s) = map fst s"
  by (simp add: demoted_def comp_def if_distrib cong: if_cong)

lemma keys_promoted: "map fst (promoted s) = map fst s"
  by (simp add: promoted_def comp_def if_distrib cong: if_cong)

lemma status_same: "status t = st \<Longrightarrow> t\<lparr>status := st\<rparr> = t"
  by (cases t) auto

lemma demoted_promoted: "demoted (promoted (demoted s)) = demoted s"
proof -
  let ?d = "demoted s"
  have "\<And>kv. kv \<in> set ?d \<Longrightarrow>
      (\<lambda>kv. if status (snd kv) = TODAY then (fst kv, (snd kv)\<lparr>status := BACKLOG\<rparr>) else kv)
        (if promotable ?d kv then (fst kv, (snd kv)\<lparr>status := TODAY\<rparr>) else kv) = kv"
  proof -
    fix kv assume m: "kv \<in> set ?d"
    then have nt: "status (snd kv) \<noteq> TODAY" by (auto simp: demoted_def)
    show "(\<lambda>kv. if status (snd kv) = TODAY then (fst kv, (snd kv)\<lparr>status := BACKLOG\<rparr>) else kv)
        (if promotable ?d kv then (fst kv, (snd kv)\<lparr>status := TODAY\<rparr>) else kv) = kv"
    proof (cases "promotable ?d kv")
      case True
      from promotable_mem [OF True] have "status (snd kv) = BACKLOG" by simp
      with True show ?thesis by (cases kv) (simp add: status_same)
    next
      case False
      with nt show ?thesis by simp
    qed
  qed
  then have "map (\<lambda>kv. if status (snd kv) = TODAY then (fst kv, (snd kv)\<lparr>status := BACKLOG\<rparr>) else kv)
       (map (\<lambda>kv. if promotable ?d kv then (fst kv, (snd kv)\<lparr>status := TODAY\<rparr>) else kv) ?d) = ?d"
    by (simp add: map_idI)
  then show ?thesis by (simp add: promoted_def demoted_def [of "map f xs" for f xs])
qed

lemma demoted_demoted: "demoted (demoted s) = demoted s"
proof -
  have "\<And>kv. kv \<in> set (demoted s) \<Longrightarrow> status (snd kv) \<noteq> TODAY" by (auto simp: demoted_def)
  then have "map (\<lambda>kv. if status (snd kv) = TODAY then (fst kv, (snd kv)\<lparr>status := BACKLOG\<rparr>) else kv)
       (demoted s) = demoted s"
    by (intro map_idI) simp
  then show ?thesis by (simp add: demoted_def [of "demoted s"])
qed

subsection \<open>The archive\<close>

lemma archiveOldTasks_alt:
  "archiveOldTasks now s =
     (if staleTasksQuery now s = [] then (s, None)
      else (case commit s (archiveBatch (staleTasksQuery now s)) of
              Inl e \<Rightarrow> (s, Some e) | Inr s' \<Rightarrow> (s', None)))"
  by (simp add: archiveOldTasks_def Let_def)

lemma archiveOldTasks_eq:
  assumes "distinctDocs s"
  shows "archiveOldTasks now s = (archived now s, None)"
proof (cases "staleTasksQuery now s = []")
  case True
  then have "\<And>kv. kv \<in> set s \<Longrightarrow> \<not> (status (snd kv) = BACKLOG \<and> createdOn (snd kv) < cutoffDate now)"
    by (auto simp: staleTasksQuery_def filter_empty_conv)
  then have "archived now s = s"
    unfolding archived_def by (intro map_idI) auto
  with True show ?thesis by (simp add: archiveOldTasks_alt)
next
  case False
  let ?ds = "map fst (staleTasksQuery now s)"
  have sub: "set ?ds \<subseteq> fst ` set s" by (auto simp: staleTasksQuery_def)
  have "map (\<lambda>kv. if fst kv \<in> set ?ds then (fst kv, (snd kv)\<lparr>status := ARCHIVE\<rparr>) else kv) s = archived now s"
    unfolding archived_def
  proof (rule map_cong [OF refl])
    fix kv assume "kv \<in> set s"
    with assms have "fst kv \<in> set ?ds \<longleftrightarrow> status (snd kv) = BACKLOG \<and> createdOn (snd kv) < cutoffDate now"
      using key_of_filter [of s kv "\<lambda>kv. status (snd kv) = BACKLOG \<and> createdOn (snd kv) < cutoffDate now"]
      by (simp add: staleTasksQuery_def distinctDocs_def)
    then show "(if fst kv \<in> set ?ds then (fst kv, (snd kv)\<lparr>status := ARCHIVE\<rparr>) else kv)
       = (if status (snd kv) = BACKLOG \<and> createdOn (snd kv) < cutoffDate now
          then (fst kv, (snd kv)\<lparr>status := ARCHIVE\<rparr>) else kv)"
      by simp
  qed
  with commit_status_updates [OF sub, of ARCHIVE] have "commit s (archiveBatch (staleTasksQuery now s)) = Inr (archived now s)"
    by (simp add: archiveBatch_def comp_def)
  with False show ?thesis by (simp add: archiveOldTasks_alt)
qed

lemma stale_archived: "staleTasksQuery now (archived now s) = []"
  by (auto simp: staleTasksQuery_def archived_def filter_empty_conv)

lemma keys_archived: "map fst (archived now s) = map fst s"
  by (simp add: archived_def comp_def if_distrib cong: if_cong)

subsection \<open>Documents after a run\<close>

lemma getDoc_map:
  assumes "distinctDocs s" and "kv \<in> set s" and "\<And>x. fst (g x) = fst x"
  shows "getDoc (map g s) (fst kv) = Some (snd (g kv))"
proof -
  have k: "map fst (map g s) = map fst s" using assms(3) by (simp add: comp_def)
  have "distinct (map fst (map g s))"
    unfolding k using assms(1) by (simp add: distinctDocs_def)
  moreover have "(fst kv, snd (g kv)) \<in> set (map g s)"
    using assms(2) assms(3) [of kv] by (metis image_eqI list.set_map prod.collapse)
  ultimately show ?thesis by (simp add: getDoc_def)
qed

lemma getDoc_demoted:
  assumes "distinctDocs s" and "kv \<in> set s"
  shows "getDoc (demoted s) (fst kv)
     = Some (if status (snd kv) = TODAY then (snd kv)\<lparr>status := BACKLOG\<rparr> else snd kv)"
  unfolding demoted_def
  using getDoc_map [OF assms, of "\<lambda>kv. if status (snd kv) = TODAY then (fst kv, (snd kv)\<lparr>status := BACKLOG\<rparr>) else kv"]
  by simp

lemma getDoc_promoted:
  assumes "distinctDocs s" and "kv \<in> set s"
  shows "getDoc (promoted s) (fst kv)
     = Some (if promotable s kv then (snd kv)\<lparr>status := TODAY\<rparr> else snd kv)"
  unfolding promoted_def
  using getDoc_map [OF assms, of "\<lambda>kv. if promotable s kv then (fst kv, (snd kv)\<lparr>status := TODAY\<rparr>) else kv"]
  by simp

lemma getDoc_archived:
  assumes "distinctDocs s" and "kv \<in> set s"
  shows "getDoc (archived now s) (fst kv)
     = Some (if status (snd kv) = BACKLOG \<and> createdOn (snd kv) < cutoffDate now
             then (snd kv)\<lparr>status := ARCHIVE\<rparr> else snd kv)"
  unfolding archived_def
  using getDoc_map [OF assms, of "\<lambda>kv. if status (snd kv) = BACKLOG \<and> createdOn (snd kv) < cutoffDate now
                then (fst kv, (snd kv)\<lparr>status := ARCHIVE\<rparr>) else kv"]
  by simp

lemma demoted_mem:
  "kv \<in> set s \<Longrightarrow>
   (fst kv, if status (snd kv) = TODAY then (snd kv)\<lparr>status := BACKLOG\<rparr> else snd kv) \<in> set (demoted s)"
  unfolding demoted_def by force

lemma distinctDocs_demoted: "distinctDocs s \<Longrightarrow> distinctDocs (demoted s)"
  by (simp add: distinctDocs_def keys_demoted)

subsection \<open>A run of the triage\<close>

lemma distinctDocs_promoted: "distinctDocs s \<Longrightarrow> distinctDocs (promoted s)"
  by (simp add: distinctDocs_def keys_promoted)

lemma getDoc_same_keys: "map fst s' = map fst s \<Longrightarrow> getDoc s' d = None \<longleftrightarrow> getDoc s d = None"
  by (metis getDoc_None_iff list.set_map)

lemma noStrayIds_map:
  assumes "noStrayIds s" and "\<And>x. fst (g x) = fst x" and "\<And>x. id_task (snd (g x)) = id_task (snd x)"
  shows "noStrayIds (map g s)"
proof -
  have keys: "map fst (map g s) = map fst s" using assms(2) by (simp add: comp_def)
  have k: "\<And>d. getDoc (map g s) d = None \<longleftrightarrow> getDoc s d = None"
    using keys by (rule getDoc_same_keys)
  have "\<And>x. x \<in> set s \<Longrightarrow>
      id_task (snd (g x)) = fst (g x) \<or> getDoc (map g s) (id_task (snd (g x))) = None"
  proof -
    fix x assume "x \<in> set s"
    with assms(1) have "id_task (snd x) = fst x \<or> getDoc s (id_task (snd x)) = None"
      by (auto simp: noStrayIds_def list_all_iff)
    then show "id_task (snd (g x)) = fst (g x) \<or> getDoc (map g s) (id_task (snd (g x))) = None"
      by (simp add: assms(2,3) k)
  qed
  then show ?thesis by (simp add: noStrayIds_def list_all_iff)
qed

lemma noStrayIds_demoted: "noStrayIds s \<Longrightarrow> noStrayIds (demoted s)"
  unfolding demoted_def by (rule noStrayIds_map) simp_all

lemma noStrayIds_promoted: "noStrayIds s \<Longrightarrow> noStrayIds (promoted s)"
  unfolding promoted_def by (rule noStrayIds_map) simp_all

lemma dailyTriage_cases:
  assumes "distinctDocs s" and "noStrayIds s"
  shows "dailyTriage s =
     (if promotableOwnIds (demoted s) then (promoted (demoted s), None)
      else (demoted s, Some NOT_FOUND))"
proof -
  have 1: "demoteToday s = Inr (demoted s)" using assms(1) by (rule demoteToday_eq)
  show ?thesis
  proof (cases "promotableOwnIds (demoted s)")
    case True
    have "promoteBacklog (demoted s) = Inr (promoted (demoted s))"
      using distinctDocs_demoted [OF assms(1)] True by (rule promoteBacklog_eq)
    with True 1 show ?thesis by (simp add: dailyTriage_def)
  next
    case False
    have "promoteBacklog (demoted s) = Inl NOT_FOUND"
      using noStrayIds_demoted [OF assms(2)] False by (rule promoteBacklog_fail)
    with False 1 show ?thesis by (simp add: dailyTriage_def)
  qed
qed

lemma demoted_triage:
  assumes "distinctDocs s" and "noStrayIds s"
  shows "demoted (fst (dailyTriage s)) = demoted s"
  by (simp add: dailyTriage_cases [OF assms] demoted_promoted demoted_demoted)

lemma distinctDocs_triage:
  assumes "distinctDocs s" and "noStrayIds s"
  shows "distinctDocs (fst (dailyTriage s))"
  using assms(1)
  by (simp add: dailyTriage_cases [OF assms] distinctDocs_promoted distinctDocs_demoted)

lemma noStrayIds_triage:
  assumes "distinctDocs s" and "noStrayIds s"
  shows "noStrayIds (fst (dailyTriage s))"
  using assms(2)
  by (simp add: dailyTriage_cases [OF assms] noStrayIds_promoted noStrayIds_demoted)

lemma getDoc_triage:
  assumes "distinctDocs s" and "noStrayIds s" and "kv \<in> set s"
  shows "getDoc (fst (dailyTriage s)) (fst kv) =
     Some (let kv' = (fst kv, if status (snd kv) = TODAY then (snd kv)\<lparr>status := BACKLOG\<rparr> else snd kv)
           in if promotableOwnIds (demoted s) \<and> promotable (demoted s) kv'
              then (snd kv')\<lparr>status := TODAY\<rparr> else snd kv')"
proof -
  let ?kv' = "(fst kv, if status (snd kv) = TODAY then (snd kv)\<lparr>status := BACKLOG\<rparr> else snd kv)"
  have m: "?kv' \<in> set (demoted s)" using assms(3) by (rule demoted_mem)
  show ?thesis
  proof (cases "promotableOwnIds (demoted s)")
    case True
    from getDoc_promoted [OF distinctDocs_demoted [OF assms(1)] m] True
    show ?thesis by (simp add: dailyTriage_cases [OF assms(1,2)] Let_def)
  next
    case False
    from getDoc_demoted [OF assms(1) assms(3)] False
    show ?thesis by (simp add: dailyTriage_cases [OF assms(1,2)] Let_def)
  qed
qed

lemma absent_ids_noStrayIds:
  "getDoc s [] = None \<Longrightarrow>
   list_all (\<lambda>kv. id_task (snd kv) = [] \<or> id_task (snd kv) = fst kv) s \<Longrightarrow> noStrayIds s"
  by (auto simp: noStrayIds_def list_all_iff)




lemma not_promotable_low:
  "priority (snd kv) = P3 \<or> priority (snd kv) = P4 \<Longrightarrow> \<not> promotable s kv"
  unfolding promotable_def by (auto dest!: firstQueued_mem)


lemma batch1_writes: "w \<in> set (batch1 s) \<Longrightarrow> \<exists>d. w = WUpdate d (StatusField BACKLOG)"
  by (auto simp: batch1_def)

lemma batch2_writes: "w \<in> set (batch2 s) \<Longrightarrow> \<exists>d. w = WUpdate d (StatusField TODAY)"
  by (auto simp: batch2_eq)

lemma archiveBatch_writes: "w \<in> set (archiveBatch docs) \<Longrightarrow> \<exists>d. w = WUpdate d (StatusField ARCHIVE)"
  by (auto simp: archiveBatch_def)

lemma batch2_names: "WUpdate d (StatusField TODAY) \<in> set (batch2 s) \<longleftrightarrow> d \<in> set (promotedIds s)"
  by (auto simp: batch2_eq)

lemma batch1_names:
  "WUpdate d (StatusField BACKLOG) \<in> set (batch1 s) \<longleftrightarrow> d \<in> fst ` set (todayTasksQuery s)"
  by (auto simp: batch1_def)

lemma today_promoted_demoted:
  assumes "distinctDocs s" and "promotableOwnIds (demoted s)"
  shows "fst ` set (todayTasksQuery (promoted (demoted s))) = set (promotedIds (demoted s))"
proof -
  let ?s1 = "demoted s"
  have d1: "distinctDocs ?s1" using assms(1) by (rule distinctDocs_demoted)
  have nt: "\<And>kv. kv \<in> set ?s1 \<Longrightarrow> status (snd kv) \<noteq> TODAY" by (auto simp: demoted_def)
  have "fst ` set (todayTasksQuery (promoted ?s1)) = fst ` {kv \<in> set ?s1. promotable ?s1 kv}"
  proof (rule set_eqI)
    fix x
    show "x \<in> fst ` set (todayTasksQuery (promoted ?s1)) \<longleftrightarrow> x \<in> fst ` {kv \<in> set ?s1. promotable ?s1 kv}"
    proof
      assume "x \<in> fst ` set (todayTasksQuery (promoted ?s1))"
      then obtain kv where m: "kv \<in> set ?s1"
        and st: "status (snd (if promotable ?s1 kv then (fst kv, (snd kv)\<lparr>status := TODAY\<rparr>) else kv)) = TODAY"
        and x: "x = fst (if promotable ?s1 kv then (fst kv, (snd kv)\<lparr>status := TODAY\<rparr>) else kv)"
        unfolding todayTasksQuery_def promoted_def by auto
      from st nt [OF m] have "promotable ?s1 kv" by (cases "promotable ?s1 kv") simp_all
      moreover from x have "x = fst kv" by (simp split: if_splits)
      ultimately show "x \<in> fst ` {kv \<in> set ?s1. promotable ?s1 kv}" using m by blast
    next
      assume "x \<in> fst ` {kv \<in> set ?s1. promotable ?s1 kv}"
      then obtain kv where m: "kv \<in> set ?s1" and p: "promotable ?s1 kv" and x: "x = fst kv" by auto
      from m p have "(fst kv, (snd kv)\<lparr>status := TODAY\<rparr>) \<in> set (promoted ?s1)"
        unfolding promoted_def by force
      then have "(fst kv, (snd kv)\<lparr>status := TODAY\<rparr>) \<in> set (todayTasksQuery (promoted ?s1))"
        by (simp add: todayTasksQuery_def)
      then have "fst (fst kv, (snd kv)\<lparr>status := TODAY\<rparr>) \<in> fst ` set (todayTasksQuery (promoted ?s1))"
        by (rule imageI)
      with x show "x \<in> fst ` set (todayTasksQuery (promoted ?s1))" by simp
    qed
  qed
  also have "\<dots> = set (promotedIds ?s1)"
  proof (rule set_eqI)
    fix x
    show "x \<in> fst ` {kv \<in> set ?s1. promotable ?s1 kv} \<longleftrightarrow> x \<in> set (promotedIds ?s1)"
    proof
      assume "x \<in> fst ` {kv \<in> set ?s1. promotable ?s1 kv}"
      then obtain kv where "kv \<in> set ?s1" "promotable ?s1 kv" "x = fst kv" by auto
      then show "x \<in> set (promotedIds ?s1)" by (simp add: promotedIds_iff [OF d1 assms(2)])
    next
      assume "x \<in> set (promotedIds ?s1)"
      then obtain kv where p: "promotable ?s1 kv" and x: "x = id_task (snd kv)"
        unfolding set_promotedIds by auto
      from promotable_mem [OF p] have m: "kv \<in> set ?s1" by simp
      from x promotableOwnIdsD [OF assms(2) p] have "x = fst kv" by simp
      with p m show "x \<in> fst ` {kv \<in> set ?s1. promotable ?s1 kv}" by blast
    qed
  qed
  finally show ?thesis .
qed

subsection \<open>Archived tasks under each operation\<close>





subsection \<open>Counts of Active tasks under a client write and its handler\<close>

lemma activeCount_eq: "activeCount s u p = length (currentTasksQuery s u p)"
  by (simp add: activeCount_def currentTasksQuery_def)

lemma count_insort:
  "length (filter P (insort_key f x xs)) = (if P x then Suc (length (filter P xs)) else length (filter P xs))"
  by (induction xs) auto

lemma count_replace:
  "distinct (map fst s) \<Longrightarrow> (d, b) \<in> set s \<Longrightarrow>
   length (filter P (map (\<lambda>kv. if fst kv = d then (d, a) else kv) s)) + (if P (d, b) then 1 else 0)
     = length (filter P s) + (if P (d, a) then 1 else 0)"
proof (induction s)
  case Nil
  then show ?case by simp
next
  case (Cons x s)
  show ?case
  proof (cases "fst x = d")
    case True
    with Cons.prems have notin: "d \<notin> fst ` set s" by auto
    with Cons.prems True have x: "x = (d, b)" by (cases x) force
    from notin have "map (\<lambda>kv. if fst kv = d then (d, a) else kv) s = s"
      by (intro map_idI) auto
    with x show ?thesis by simp
  next
    case False
    with Cons.prems have "(d, b) \<in> set s" "distinct (map fst s)" by auto
    from Cons.IH [OF this(2) this(1)] False show ?thesis by simp
  qed
qed

lemma count_fields:
  assumes "\<And>t. P (d, applyFields f t) = P (d, t)"
  shows "length (filter P (map (\<lambda>kv. if fst kv = d then (d, applyFields f (snd kv)) else kv) s))
       = length (filter P s)"
proof (induction s)
  case Nil
  then show ?case by simp
next
  case (Cons x s)
  then show ?case using assms [of "snd x"] by (cases x) auto
qed

lemma deleteDoc_insort:
  "getDoc s d = None \<Longrightarrow> deleteDoc (insort_key fst (d, t) s) d = s"
proof -
  assume "getDoc s d = None"
  then have "d \<notin> fst ` set s" by (simp add: getDoc_None_iff)
  then have "filter (\<lambda>kv. fst kv \<noteq> d) s = s" by (intro filter_True) auto
  then show ?thesis by (simp add: deleteDoc_def filter_insort_triv)
qed

lemma create_preserves_cap:
  assumes "p = P1 \<or> p = P2" and "activeCount s u p \<le> wipLimit p" and "getDoc s d = None"
  shows "activeCount (enforceWipOnCreate (setDoc s d t) (Some (d, t))) u p \<le> wipLimit p"
proof -
  let ?w = "insort_key fst (d, t) s"
  let ?P = "\<lambda>kv::doc. owner (snd kv) = u \<and> status (snd kv) = TODAY \<and> priority (snd kv) = p"
  have w: "setDoc s d t = ?w" using assms(3) by (simp add: setDoc_def)
  have cnt: "activeCount ?w u p = (if ?P (d, t) then Suc (activeCount s u p) else activeCount s u p)"
    unfolding activeCount_def by (rule count_insort)
  show ?thesis
  proof (cases "status t = TODAY")
    case False
    with cnt assms(2) show ?thesis by (simp add: w)
  next
    case True
    show ?thesis
    proof (cases "checkWipLimits ?w (owner t) (priority t)")
      case c: True
      with True assms(2,3) show ?thesis by (simp add: w deleteDoc_insort)
    next
      case c: False
      show ?thesis
      proof (cases "?P (d, t)")
        case m: True
        with c assms(1) have "\<not> wipLimit p \<le> activeCount ?w u p"
          by (auto simp: checkWipLimits_iff activeCount_eq)
        with True c show ?thesis by (simp add: w)
      next
        case m: False
        with cnt have "activeCount ?w u p = activeCount s u p" by auto
        with assms(2) True c show ?thesis by (simp add: w)
      qed
    qed
  qed
qed

lemma update_preserves_cap:
  assumes "distinctDocs s" and "p = P1 \<or> p = P2" and "activeCount s u p \<le> wipLimit p"
    and "getDoc s d = Some b" and "status b \<noteq> TODAY"
  shows "\<exists>s'. enforceWipOnUpdate now (setDoc s d a) (Some (d, b, a)) = Inr s'
            \<and> activeCount s' u p \<le> wipLimit p"
proof -
  let ?w = "map (\<lambda>kv. if fst kv = d then (d, a) else kv) s"
  let ?P = "\<lambda>kv::doc. owner (snd kv) = u \<and> status (snd kv) = TODAY \<and> priority (snd kv) = p"
  have w: "setDoc s d a = ?w" using assms(4) by (simp add: setDoc_present)
  have mem: "(d, b) \<in> set s" using assms(4) by (rule getDoc_Some_mem)
  have gw: "getDoc ?w d = Some a"
    using getDoc_replace [of d "\<lambda>_. a" s d] assms(4) by simp
  from count_replace [OF _ mem, of ?P a] assms(1,5)
  have cnt: "activeCount ?w u p = (if ?P (d, a) then Suc (activeCount s u p) else activeCount s u p)"
    by (simp add: activeCount_def distinctDocs_def)
  show ?thesis
  proof (cases "status a = TODAY")
    case True
    show ?thesis
    proof (cases "checkWipLimits ?w (owner a) (priority a)")
      case c: True
      have "setDoc (setDoc s d a) d b = s" using assms(1,4) by (rule setDoc_setDoc_back)
      then have "admissionOnUpdate ?w d b a = s"
        using True c assms(5) by (simp add: admissionOnUpdate_def w)
      with True assms(3) show ?thesis by (simp add: w completionOnUpdate_def)
    next
      case c: False
      then have adm: "admissionOnUpdate ?w d b a = ?w" by (simp add: admissionOnUpdate_def)
      have "activeCount ?w u p \<le> wipLimit p"
      proof (cases "?P (d, a)")
        case m: True
        with c assms(2) have "\<not> wipLimit p \<le> activeCount ?w u p"
          by (auto simp: checkWipLimits_iff activeCount_eq)
        then show ?thesis by simp
      next
        case m: False
        with cnt have "activeCount ?w u p = activeCount s u p" by auto
        with assms(3) show ?thesis by simp
      qed
      with True adm show ?thesis by (simp add: w completionOnUpdate_def)
    qed
  next
    case False
    then have adm: "admissionOnUpdate ?w d b a = ?w" by (simp add: admissionOnUpdate_def)
    from False cnt assms(3) have le: "activeCount ?w u p \<le> wipLimit p" by simp
    show ?thesis
    proof (cases "status b \<noteq> DONE \<and> status a = DONE")
      case c: True
      let ?g = "\<lambda>kv. if fst kv = d then (d, applyFields (CompletedOnField now) (snd kv)) else kv"
      have "updateDoc ?w d (CompletedOnField now) = Inr (map ?g ?w)"
        using gw by (intro updateDoc_present) simp
      moreover have "activeCount (map ?g ?w) u p = activeCount ?w u p"
        unfolding activeCount_def by (rule count_fields) simp
      ultimately show ?thesis using c adm le by (simp add: w completionOnUpdate_def)
    next
      case c: False
      with adm le show ?thesis by (auto simp: w completionOnUpdate_def)
    qed
  qed
qed

subsection \<open>Where the promoted tasks carry their documents' names\<close>

text \<open>
  If every task that the promotion picks has the name of its document as its \<open>id\<close>, the
  run fails in neither phase and sets to Today exactly the first \<open>p1MaxToday\<close> Queued P1
  tasks and the first \<open>p2MaxToday\<close> Queued P2 tasks of every owner, in ascending
  \<open>createdOn\<close> order, as read after the demotion.
\<close>

lemma dailyTriage_own:
  assumes "distinctDocs s" and "promotableOwnIds (demoted s)"
  shows "dailyTriage s = (promoted (demoted s), None)"
proof -
  have 1: "demoteToday s = Inr (demoted s)" using assms(1) by (rule demoteToday_eq)
  have 2: "promoteBacklog (demoted s) = Inr (promoted (demoted s))"
    using distinctDocs_demoted [OF assms(1)] assms(2) by (rule promoteBacklog_eq)
  show ?thesis by (simp add: dailyTriage_def 1 2)
qed

lemma triage_promotes_first_queued_own_ids:
  assumes "distinctDocs s" and "promotableOwnIds (demoted s)"
  shows "\<exists>s1. demoteToday s = Inr s1 \<and> snd (dailyTriage s) = None \<and>
     (\<forall>u. \<forall>kv \<in> set s1. status (snd kv) = BACKLOG \<and> owner (snd kv) = u \<longrightarrow>
        getDoc (fst (dailyTriage s)) (fst kv) =
          Some ((snd kv)\<lparr>status :=
            if kv \<in> set (firstQueued s1 u P1 (p1MaxToday DEFAULT_WIP_LIMITS))
               \<or> kv \<in> set (firstQueued s1 u P2 (p2MaxToday DEFAULT_WIP_LIMITS))
            then TODAY else BACKLOG\<rparr>))"
proof -
  note d = assms(1)
  have 1: "demoteToday s = Inr (demoted s)" using d by (rule demoteToday_eq)
  have 2: "dailyTriage s = (promoted (demoted s), None)" using assms by (rule dailyTriage_own)
  have 3: "\<forall>u. \<forall>kv \<in> set (demoted s). status (snd kv) = BACKLOG \<and> owner (snd kv) = u \<longrightarrow>
        getDoc (promoted (demoted s)) (fst kv) =
          Some ((snd kv)\<lparr>status :=
            if kv \<in> set (firstQueued (demoted s) u P1 (p1MaxToday DEFAULT_WIP_LIMITS))
               \<or> kv \<in> set (firstQueued (demoted s) u P2 (p2MaxToday DEFAULT_WIP_LIMITS))
            then TODAY else BACKLOG\<rparr>)"
  proof (intro allI ballI impI)
    fix u kv
    assume m: "kv \<in> set (demoted s)" and h: "status (snd kv) = BACKLOG \<and> owner (snd kv) = u"
    from h have same: "(snd kv)\<lparr>status := BACKLOG\<rparr> = snd kv" by (simp add: status_same)
    from getDoc_promoted [OF distinctDocs_demoted [OF d] m] h same
    show "getDoc (promoted (demoted s)) (fst kv) =
          Some ((snd kv)\<lparr>status :=
            if kv \<in> set (firstQueued (demoted s) u P1 (p1MaxToday DEFAULT_WIP_LIMITS))
               \<or> kv \<in> set (firstQueued (demoted s) u P2 (p2MaxToday DEFAULT_WIP_LIMITS))
            then TODAY else BACKLOG\<rparr>)"
      by (simp add: promotable_def)
  qed
  from 1 2 3 show ?thesis by simp
qed

lemma triage_promotes_first_queued_example:
  "distinctDocs exampleStore \<and> promotableOwnIds (demoted exampleStore)
   \<and> map (\<lambda>kv. (fst kv, status (snd kv))) (fst (dailyTriage exampleStore))
      = [(''t1'', TODAY), (''t2'', TODAY), (''t3'', TODAY), (''t4'', BACKLOG),
         (''t5'', BACKLOG), (''t6'', ARCHIVE), (''t7'', TODAY), (''t8'', BACKLOG)]"
  by code_simp

subsection \<open>An id that names another document\<close>

text \<open>
  The promotion writes to \<open>doc(task.id)\<close>, the demotion and the archive to \<open>doc.ref\<close>.
  Where the \<open>id\<close> of a promoted task names another document, that document is the one
  set to Today, whatever its priority and status, and no error is raised: the theorems
  on the triage below assume \<open>noStrayIds\<close>.
\<close>

lemma stray_id_promotes_other_document:
  "distinctDocs strayIdStore \<and> \<not> noStrayIds strayIdStore
   \<and> map (\<lambda>kv. (fst kv, priority (snd kv), status (snd kv))) (fst (dailyTriage strayIdStore))
       = [(''h1'', P1, BACKLOG), (''h2'', P3, TODAY)]
   \<and> snd (dailyTriage strayIdStore) = None"
  by code_simp

section \<open>The claims\<close>

text \<open>
  Claim C1, at its boundary. Owner \<open>U\<close> has two Active P1 tasks and the limit is three.
  A third P1 task is created Active, or the queued one is moved to Active: the count of
  Active P1 tasks after the write, the written task included, is exactly the limit, and
  \<open>checkWipLimits\<close> adds one to it, so the handler rolls the write back (the created
  document is deleted, the moved one reverted) and the collection is what it was.
\<close>

theorem admission_at_limit_is_rolled_back:
  "activeCount (setDoc twoActive ''a3'' (snd (exampleTask ''a3'' ''U'' P1 TODAY 5))) ''U'' P1
      = p1MaxToday DEFAULT_WIP_LIMITS
   \<and> checkWipLimits (setDoc twoActive ''a3'' (snd (exampleTask ''a3'' ''U'' P1 TODAY 5))) ''U'' P1
   \<and> clientStep 0 twoActive (Create ''a3'' (snd (exampleTask ''a3'' ''U'' P1 TODAY 5))) = Inr twoActive
   \<and> activeCount (setDoc twoActive ''q1'' (snd (exampleTask ''q1'' ''U'' P1 TODAY 4))) ''U'' P1
      = p1MaxToday DEFAULT_WIP_LIMITS
   \<and> clientStep 0 twoActive (Update ''q1'' (snd (exampleTask ''q1'' ''U'' P1 TODAY 4))) = Inr twoActive"
  by code_simp

text \<open>
  Claim C2, amended. Document names are unique, the priority is P1 or P2, and the count of
  Active tasks of the owner and priority does not exceed the limit before the write. Then
  it does not exceed the limit after a creation and its handler, nor after an update of a
  task that was not Active and its handler; both handlers succeed.
\<close>

theorem admission_preserves_cap:
  assumes "distinctDocs s" and "p = P1 \<or> p = P2" and "activeCount s u p \<le> wipLimit p"
  shows "(getDoc s d = None \<longrightarrow>
            (\<exists>s'. clientStep now s (Create d t) = Inr s' \<and> activeCount s' u p \<le> wipLimit p))
       \<and> (\<forall>b. getDoc s d = Some b \<and> status b \<noteq> TODAY \<longrightarrow>
            (\<exists>s'. clientStep now s (Update d a) = Inr s' \<and> activeCount s' u p \<le> wipLimit p))"
proof (intro conjI impI allI)
  assume "getDoc s d = None"
  with create_preserves_cap [OF assms(2,3) this, of t]
  show "\<exists>s'. clientStep now s (Create d t) = Inr s' \<and> activeCount s' u p \<le> wipLimit p" by simp
next
  fix b assume h: "getDoc s d = Some b \<and> status b \<noteq> TODAY"
  then have g: "getDoc s d = Some b" and nb: "status b \<noteq> TODAY" by simp_all
  from update_preserves_cap [OF assms g nb, of now a] g
  show "\<exists>s'. clientStep now s (Update d a) = Inr s' \<and> activeCount s' u p \<le> wipLimit p" by simp
qed

theorem admission_preserves_cap_witness:
  "distinctDocs exampleStore \<and> activeCount exampleStore ''U'' P1 \<le> wipLimit P1
   \<and> getDoc exampleStore ''t9'' = None
   \<and> (case clientStep 0 exampleStore (Create ''t9'' (snd (exampleTask ''t9'' ''U'' P1 TODAY 9))) of
         Inl e \<Rightarrow> False | Inr s' \<Rightarrow> activeCount s' ''U'' P1 \<le> wipLimit P1)
   \<and> getDoc exampleStore ''t1'' = Some (snd (exampleTask ''t1'' ''U'' P1 BACKLOG 1))
   \<and> (case clientStep 0 exampleStore (Update ''t1'' (snd (exampleTask ''t1'' ''U'' P1 TODAY 1))) of
         Inl e \<Rightarrow> False | Inr s' \<Rightarrow> activeCount s' ''U'' P1 \<le> wipLimit P1)"
proof -
  let ?t = "snd (exampleTask ''t9'' ''U'' P1 TODAY 9)"
  let ?b = "snd (exampleTask ''t1'' ''U'' P1 BACKLOG 1)" and ?a = "snd (exampleTask ''t1'' ''U'' P1 TODAY 1)"
  have h1: "distinctDocs exampleStore" by code_simp
  have h2: "P1 = P1 \<or> P1 = P2" by simp
  have h3: "activeCount exampleStore ''U'' P1 \<le> wipLimit P1" by code_simp
  have g9: "getDoc exampleStore ''t9'' = None" by code_simp
  have g1: "getDoc exampleStore ''t1'' = Some ?b" by code_simp
  have nb: "status ?b \<noteq> TODAY" by (simp add: exampleTask_def)
  note w = admission_preserves_cap [OF h1 h2 h3, where d = "''t9''" and t = ?t and now = 0]
  note v = admission_preserves_cap [OF h1 h2 h3, where d = "''t1''" and a = ?a and now = 0]
  from w g9 have 1: "case clientStep 0 exampleStore (Create ''t9'' ?t) of
         Inl e \<Rightarrow> False | Inr s' \<Rightarrow> activeCount s' ''U'' P1 \<le> wipLimit P1"
    by auto
  from v g1 nb have 2: "case clientStep 0 exampleStore (Update ''t1'' ?a) of
         Inl e \<Rightarrow> False | Inr s' \<Rightarrow> activeCount s' ''U'' P1 \<le> wipLimit P1"
    by auto
  from h1 h3 g9 1 g1 2 show ?thesis by blast
qed

text \<open>
  Claim C2 as stated fails: every write of the history is processed by its handler, the
  last one is the creation of an Active P1 task, and after it owner \<open>U\<close> has four Active
  P1 tasks, over the limit of three: the handlers do not look at an edit of the priority
  of a task that is already Active.
\<close>

theorem cap_exceeded_after_admission:
  "clientRun 0 [] overCapHistory = Inr overCapStore
   \<and> last overCapHistory = Create ''c5'' (capTask P1)
   \<and> \<not> activeCount overCapStore ''U'' P1 \<le> p1MaxToday DEFAULT_WIP_LIMITS"
  by code_simp

text \<open>
  Claim C3. A task is stored with the fields \<open>F\<close>, its status Queued. An update sets its
  status to Active (and may change any other field), and the controller judges the limit
  exceeded. Then after the controller's revert the whole collection is what it was before
  the update, so the stored document is \<open>F\<close>, every field of it; and the update event
  that the revert itself raises changes nothing.
\<close>

theorem revert_restores_document:
  assumes "distinctDocs s" and "getDoc s ref = Some F" and "status F = BACKLOG"
    and "status a = TODAY"
    and "checkWipLimits (setDoc s ref a) (owner a) (priority a)"
  shows "clientStep now s (Update ref a) = Inr s
       \<and> enforceWipOnUpdate now (setDoc s ref a) (Some (ref, F, a)) = Inr s
       \<and> enforceWipOnUpdate now' s (Some (ref, a, F)) = Inr s"
  using assms by (simp add: admissionOnUpdate_def completionOnUpdate_def setDoc_setDoc_back)

theorem revert_restores_document_witness:
  "distinctDocs fullStore
   \<and> getDoc fullStore ''q1'' = Some (snd (exampleTask ''q1'' ''U'' P1 BACKLOG 4))
   \<and> checkWipLimits (setDoc fullStore ''q1'' ((snd (exampleTask ''q1'' ''U'' P1 TODAY 4))\<lparr>title := ''new''\<rparr>)) ''U'' P1
   \<and> clientStep 7 fullStore (Update ''q1'' ((snd (exampleTask ''q1'' ''U'' P1 TODAY 4))\<lparr>title := ''new''\<rparr>))
       = Inr fullStore"
proof -
  let ?F = "snd (exampleTask ''q1'' ''U'' P1 BACKLOG 4)"
  let ?a = "(snd (exampleTask ''q1'' ''U'' P1 TODAY 4))\<lparr>title := ''new''\<rparr>"
  have h1: "distinctDocs fullStore" by code_simp
  have h2: "getDoc fullStore ''q1'' = Some ?F" by code_simp
  have h3: "status ?F = BACKLOG" by code_simp
  have h4: "status ?a = TODAY" by code_simp
  have h5: "checkWipLimits (setDoc fullStore ''q1'' ?a) (owner ?a) (priority ?a)" by code_simp
  have o: "owner ?a = ''U''" "priority ?a = P1" by (simp_all add: exampleTask_def)
  from revert_restores_document [OF h1 h2 h3 h4 h5, of 7] h1 h2 h5 o show ?thesis by simp
qed

text \<open>
  Claim C4, on the documents the client writes. The history of client writes gives
  \<open>clientStore\<close>, where owner \<open>U\<close> has four Queued P1 tasks of days 1 to 4 and the limit
  is three. After the demotion \<open>t1\<close> is among the first three Queued P1 tasks of \<open>U\<close> in
  ascending \<open>createdOn\<close> order, which the claim says the run promotes. The promotion
  writes to \<open>doc(task.id)\<close> and the stored tasks have no \<open>id\<close>: it fails, the \<open>catch\<close> logs
  the error, and after the run the collection is the demoted one, with \<open>t1\<close> still
  Queued and no task Active.
\<close>

theorem triage_promotes_nothing_without_ids:
  "clientRun 0 [] clientHistory = Inr clientStore
   \<and> distinctDocs clientStore \<and> noStrayIds clientStore
   \<and> demoteToday clientStore = Inr (demoted clientStore)
   \<and> (''t1'', clientTask ''U'' P1 BACKLOG 1)
        \<in> set (firstQueued (demoted clientStore) ''U'' P1 (p1MaxToday DEFAULT_WIP_LIMITS))
   \<and> dailyTriage clientStore = (demoted clientStore, Some NOT_FOUND)
   \<and> getDoc (fst (dailyTriage clientStore)) ''t1'' = Some (clientTask ''U'' P1 BACKLOG 1)
   \<and> todayTasksQuery (fst (dailyTriage clientStore)) = []"
  by code_simp

text \<open>
  Claim C5. Document names are unique and no task's \<open>id\<close> names another document (the
  \<open>id\<close> is absent, as in the documents the client writes, or the document's own name).
  Then a task of priority P3 or P4 is not Active after a run of the daily triage,
  whatever its age, its owner and the other tasks, and whether or not the promotion
  fails: the run leaves it as it was, or Queued if it was Active.
\<close>

theorem triage_never_promotes_p3_p4:
  assumes "distinctDocs s" and "noStrayIds s" and "(d, t) \<in> set s"
    and "priority t = P3 \<or> priority t = P4"
  shows "\<exists>t'. getDoc (fst (dailyTriage s)) d = Some t' \<and> status t' \<noteq> TODAY
           \<and> t' = t\<lparr>status := (if status t = TODAY then BACKLOG else status t)\<rparr>"
proof -
  let ?t' = "if status t = TODAY then t\<lparr>status := BACKLOG\<rparr> else t"
  have np: "\<not> promotable (demoted s) (d, ?t')"
    using assms(4) by (intro not_promotable_low) auto
  have "getDoc (fst (dailyTriage s)) d = Some ?t'"
  proof (cases "status t = TODAY")
    case True
    with np have "\<not> promotable (demoted s) (d, t\<lparr>status := BACKLOG\<rparr>)" by simp
    with getDoc_triage [OF assms(1,2,3)] True show ?thesis by (simp add: Let_def)
  next
    case False
    with np have "\<not> promotable (demoted s) (d, t)" by simp
    with getDoc_triage [OF assms(1,2,3)] False show ?thesis by (simp add: Let_def)
  qed
  moreover have "status ?t' \<noteq> TODAY" by simp
  moreover have "?t' = t\<lparr>status := (if status t = TODAY then BACKLOG else status t)\<rparr>"
    by (simp add: status_same)
  ultimately show ?thesis by blast
qed

theorem triage_never_promotes_p3_p4_witness:
  "distinctDocs clientStore \<and> noStrayIds clientStore
   \<and> (''t8'', clientTask ''V'' P4 BACKLOG 0) \<in> set clientStore
   \<and> getDoc (fst (dailyTriage clientStore)) ''t8'' = Some (clientTask ''V'' P4 BACKLOG 0)
   \<and> (''t5'', clientTask ''U'' P3 TODAY 0) \<in> set clientStore
   \<and> getDoc (fst (dailyTriage clientStore)) ''t5'' = Some (clientTask ''U'' P3 BACKLOG 0)
   \<and> distinctDocs exampleStore \<and> noStrayIds exampleStore
   \<and> exampleTask ''t8'' ''V'' P4 BACKLOG 0 \<in> set exampleStore
   \<and> getDoc (fst (dailyTriage exampleStore)) ''t8'' = Some (snd (exampleTask ''t8'' ''V'' P4 BACKLOG 0))"
proof -
  have h: "distinctDocs clientStore" and n: "noStrayIds clientStore" by code_simp+
  have m8: "(''t8'', clientTask ''V'' P4 BACKLOG 0) \<in> set clientStore"
    and m5: "(''t5'', clientTask ''U'' P3 TODAY 0) \<in> set clientStore"
    by (simp_all add: clientStore_def)
  have p8: "priority (clientTask ''V'' P4 BACKLOG 0) = P3 \<or> priority (clientTask ''V'' P4 BACKLOG 0) = P4"
    and p5: "priority (clientTask ''U'' P3 TODAY 0) = P3 \<or> priority (clientTask ''U'' P3 TODAY 0) = P4"
    by (simp_all add: clientTask_def)
  from triage_never_promotes_p3_p4 [OF h n m8 p8]
  have r8: "getDoc (fst (dailyTriage clientStore)) ''t8'' = Some (clientTask ''V'' P4 BACKLOG 0)"
    by (simp add: clientTask_def)
  from triage_never_promotes_p3_p4 [OF h n m5 p5]
  have r5: "getDoc (fst (dailyTriage clientStore)) ''t5'' = Some (clientTask ''U'' P3 BACKLOG 0)"
    by (simp add: clientTask_def)
  have h': "distinctDocs exampleStore" and n': "noStrayIds exampleStore" by code_simp+
  have e8: "(''t8'', snd (exampleTask ''t8'' ''V'' P4 BACKLOG 0)) \<in> set exampleStore"
    by (simp add: exampleStore_def exampleTask_def)
  have q8: "priority (snd (exampleTask ''t8'' ''V'' P4 BACKLOG 0)) = P3
            \<or> priority (snd (exampleTask ''t8'' ''V'' P4 BACKLOG 0)) = P4"
    by (simp add: exampleTask_def)
  from triage_never_promotes_p3_p4 [OF h' n' e8 q8]
  have x8: "getDoc (fst (dailyTriage exampleStore)) ''t8'' = Some (snd (exampleTask ''t8'' ''V'' P4 BACKLOG 0))"
    by (simp add: exampleTask_def)
  from e8 have e8': "exampleTask ''t8'' ''V'' P4 BACKLOG 0 \<in> set exampleStore"
    by (simp add: exampleTask_def)
  from h n m8 r8 m5 r5 h' n' e8' x8 show ?thesis by blast
qed

text \<open>
  Claim C6. Document names are unique and no task's \<open>id\<close> names another document. Then
  a second run of the daily triage, with no write in between, returns what the first run
  returned: the same collection, and the same outcome of the promotion. The demotion of
  the second run leaves the collection that the demotion of the first run left. Where the
  first run promoted, the demotion of the second run writes to exactly the documents the
  promotion of the first run wrote to; where the promotion of the first run failed, the
  first run promoted nothing and the second run demotes nothing.
\<close>

theorem triage_twice:
  assumes "distinctDocs s" and "noStrayIds s"
  shows "dailyTriage (fst (dailyTriage s)) = dailyTriage s
       \<and> demoteToday (fst (dailyTriage s)) = demoteToday s
       \<and> (\<exists>s1. demoteToday s = Inr s1
            \<and> (snd (dailyTriage s) = None \<longrightarrow>
                 (\<forall>d. WUpdate d (StatusField BACKLOG) \<in> set (batch1 (fst (dailyTriage s)))
                       \<longleftrightarrow> WUpdate d (StatusField TODAY) \<in> set (batch2 s1)))
            \<and> (snd (dailyTriage s) \<noteq> None \<longrightarrow>
                 fst (dailyTriage s) = s1 \<and> batch1 (fst (dailyTriage s)) = []))"
proof -
  let ?r = "fst (dailyTriage s)"
  note cases = dailyTriage_cases [OF assms]
  have dr: "distinctDocs ?r" using assms by (rule distinctDocs_triage)
  have nr: "noStrayIds ?r" using assms by (rule noStrayIds_triage)
  have dem: "demoted ?r = demoted s" using assms by (rule demoted_triage)
  have "dailyTriage ?r =
      (if promotableOwnIds (demoted ?r) then (promoted (demoted ?r), None)
       else (demoted ?r, Some NOT_FOUND))"
    using dr nr by (rule dailyTriage_cases)
  also have "\<dots> = (if promotableOwnIds (demoted s) then (promoted (demoted s), None)
       else (demoted s, Some NOT_FOUND))"
    by (simp only: dem)
  also have "\<dots> = dailyTriage s" by (rule cases [symmetric])
  finally have a: "dailyTriage ?r = dailyTriage s" .
  have 1: "demoteToday s = Inr (demoted s)" using assms(1) by (rule demoteToday_eq)
  have "demoteToday ?r = Inr (demoted ?r)" using dr by (rule demoteToday_eq)
  with dem 1 have b: "demoteToday ?r = demoteToday s" by simp
  have c: "snd (dailyTriage s) = None \<longrightarrow>
                 (\<forall>d. WUpdate d (StatusField BACKLOG) \<in> set (batch1 ?r)
                       \<longleftrightarrow> WUpdate d (StatusField TODAY) \<in> set (batch2 (demoted s)))"
  proof
    assume "snd (dailyTriage s) = None"
    with cases have own: "promotableOwnIds (demoted s)" by (simp split: if_splits)
    with cases have r: "?r = promoted (demoted s)" by simp
    show "\<forall>d. WUpdate d (StatusField BACKLOG) \<in> set (batch1 ?r)
                       \<longleftrightarrow> WUpdate d (StatusField TODAY) \<in> set (batch2 (demoted s))"
      unfolding r
      by (simp add: batch1_names batch2_names today_promoted_demoted [OF assms(1) own])
  qed
  have e: "snd (dailyTriage s) \<noteq> None \<longrightarrow> ?r = demoted s \<and> batch1 ?r = []"
  proof
    assume "snd (dailyTriage s) \<noteq> None"
    with cases have "\<not> promotableOwnIds (demoted s)" by (simp split: if_splits)
    with cases have r: "?r = demoted s" by simp
    have "todayTasksQuery (demoted s) = []"
      by (auto simp: todayTasksQuery_def demoted_def filter_empty_conv)
    then have "batch1 (demoted s) = []" by (simp add: batch1_def)
    with r show "?r = demoted s \<and> batch1 ?r = []" by simp
  qed
  have ex: "\<exists>s1. demoteToday s = Inr s1
            \<and> (snd (dailyTriage s) = None \<longrightarrow>
                 (\<forall>d. WUpdate d (StatusField BACKLOG) \<in> set (batch1 ?r)
                       \<longleftrightarrow> WUpdate d (StatusField TODAY) \<in> set (batch2 s1)))
            \<and> (snd (dailyTriage s) \<noteq> None \<longrightarrow> ?r = s1 \<and> batch1 ?r = [])"
    using 1 c e by (intro exI [of _ "demoted s"] conjI)
  from a b ex show ?thesis by (intro conjI)
qed

theorem triage_twice_witness:
  "distinctDocs clientStore \<and> noStrayIds clientStore
   \<and> dailyTriage (fst (dailyTriage clientStore)) = dailyTriage clientStore
   \<and> map (\<lambda>kv. (fst kv, status (snd kv))) (fst (dailyTriage clientStore))
      = [(''t1'', BACKLOG), (''t2'', BACKLOG), (''t3'', BACKLOG), (''t4'', BACKLOG),
         (''t5'', BACKLOG), (''t6'', ARCHIVE), (''t7'', BACKLOG), (''t8'', BACKLOG)]
   \<and> distinctDocs exampleStore \<and> noStrayIds exampleStore
   \<and> dailyTriage (fst (dailyTriage exampleStore)) = dailyTriage exampleStore
   \<and> map (\<lambda>kv. (fst kv, status (snd kv))) (fst (dailyTriage exampleStore))
      = [(''t1'', TODAY), (''t2'', TODAY), (''t3'', TODAY), (''t4'', BACKLOG),
         (''t5'', BACKLOG), (''t6'', ARCHIVE), (''t7'', TODAY), (''t8'', BACKLOG)]"
proof -
  have h: "distinctDocs clientStore" and n: "noStrayIds clientStore" by code_simp+
  have e: "map (\<lambda>kv. (fst kv, status (snd kv))) (fst (dailyTriage clientStore))
      = [(''t1'', BACKLOG), (''t2'', BACKLOG), (''t3'', BACKLOG), (''t4'', BACKLOG),
         (''t5'', BACKLOG), (''t6'', ARCHIVE), (''t7'', BACKLOG), (''t8'', BACKLOG)]"
    by code_simp
  have h': "distinctDocs exampleStore" and n': "noStrayIds exampleStore" by code_simp+
  have e': "map (\<lambda>kv. (fst kv, status (snd kv))) (fst (dailyTriage exampleStore))
      = [(''t1'', TODAY), (''t2'', TODAY), (''t3'', TODAY), (''t4'', BACKLOG),
         (''t5'', BACKLOG), (''t6'', ARCHIVE), (''t7'', TODAY), (''t8'', BACKLOG)]"
    by code_simp
  from triage_twice [OF h n] triage_twice [OF h' n'] h n e h' n' e' show ?thesis by blast
qed

text \<open>
  Claim C7. On an update event whose status goes from a value other than Done to Done,
  the handler succeeds and the stored task has \<open>completedOn\<close> set, to the time of the
  handler. On an update event between two statuses other than Done, the completion block
  writes nothing, on any collection: the handler does what its admission block does.
\<close>

theorem completion_stamp:
  assumes "getDoc s ref = Some afterData"
  shows "(status beforeData \<noteq> DONE \<and> status afterData = DONE \<longrightarrow>
           (\<exists>s'. enforceWipOnUpdate now s (Some (ref, beforeData, afterData)) = Inr s'
              \<and> getDoc s' ref = Some (afterData\<lparr>completedOn := Some now\<rparr>)
              \<and> completedOn (afterData\<lparr>completedOn := Some now\<rparr>) \<noteq> None))
       \<and> (status beforeData \<noteq> DONE \<and> status afterData \<noteq> DONE \<longrightarrow>
           (\<forall>s'. completionOnUpdate now s' ref beforeData afterData = Inr s')
           \<and> enforceWipOnUpdate now s (Some (ref, beforeData, afterData))
               = Inr (admissionOnUpdate s ref beforeData afterData))"
proof (intro conjI impI)
  assume h: "status beforeData \<noteq> DONE \<and> status afterData = DONE"
  then have adm: "admissionOnUpdate s ref beforeData afterData = s"
    by (simp add: admissionOnUpdate_def)
  have "getDoc (map (\<lambda>kv. if fst kv = ref then (ref, applyFields (CompletedOnField now) (snd kv)) else kv) s) ref
      = Some (afterData\<lparr>completedOn := Some now\<rparr>)"
    using getDoc_replace [of ref "applyFields (CompletedOnField now)" s ref] assms by simp
  then show "\<exists>s'. enforceWipOnUpdate now s (Some (ref, beforeData, afterData)) = Inr s'
              \<and> getDoc s' ref = Some (afterData\<lparr>completedOn := Some now\<rparr>)
              \<and> completedOn (afterData\<lparr>completedOn := Some now\<rparr>) \<noteq> None"
    using h adm assms by (simp add: completionOnUpdate_def updateDoc_present)
next
  assume h: "status beforeData \<noteq> DONE \<and> status afterData \<noteq> DONE"
  then show "\<forall>s'. completionOnUpdate now s' ref beforeData afterData = Inr s'"
    by (simp add: completionOnUpdate_def)
  from h show "enforceWipOnUpdate now s (Some (ref, beforeData, afterData))
               = Inr (admissionOnUpdate s ref beforeData afterData)"
    by (simp add: completionOnUpdate_def)
qed

theorem completion_stamp_witness:
  "getDoc (setDoc fullStore ''q1'' (snd (exampleTask ''q1'' ''U'' P1 DONE 4))) ''q1''
      = Some (snd (exampleTask ''q1'' ''U'' P1 DONE 4))
   \<and> (case enforceWipOnUpdate 9 (setDoc fullStore ''q1'' (snd (exampleTask ''q1'' ''U'' P1 DONE 4)))
             (Some (''q1'', snd (exampleTask ''q1'' ''U'' P1 BACKLOG 4), snd (exampleTask ''q1'' ''U'' P1 DONE 4))) of
         Inl e \<Rightarrow> False
       | Inr s' \<Rightarrow> getDoc s' ''q1'' = Some ((snd (exampleTask ''q1'' ''U'' P1 DONE 4))\<lparr>completedOn := Some 9\<rparr>))
   \<and> completionOnUpdate 9 fullStore ''a1'' (snd (exampleTask ''a1'' ''U'' P1 BACKLOG 1))
        (snd (exampleTask ''a1'' ''U'' P1 TODAY 1)) = Inr fullStore"
proof -
  let ?F = "snd (exampleTask ''q1'' ''U'' P1 BACKLOG 4)" and ?a = "snd (exampleTask ''q1'' ''U'' P1 DONE 4)"
  let ?s = "setDoc fullStore ''q1'' ?a"
  let ?b1 = "snd (exampleTask ''a1'' ''U'' P1 BACKLOG 1)" and ?a1 = "snd (exampleTask ''a1'' ''U'' P1 TODAY 1)"
  have h: "getDoc ?s ''q1'' = Some ?a" by code_simp
  have st: "status ?F \<noteq> DONE \<and> status ?a = DONE" by (simp add: exampleTask_def)
  from completion_stamp [OF h, of ?F 9] st
  have 1: "case enforceWipOnUpdate 9 ?s (Some (''q1'', ?F, ?a)) of
         Inl e \<Rightarrow> False | Inr s' \<Rightarrow> getDoc s' ''q1'' = Some (?a\<lparr>completedOn := Some 9\<rparr>)"
    by auto
  have h1: "getDoc fullStore ''a1'' = Some ?a1" by code_simp
  have st1: "status ?b1 \<noteq> DONE \<and> status ?a1 \<noteq> DONE" by (simp add: exampleTask_def)
  from completion_stamp [OF h1, of ?b1 9] st1
  have 2: "completionOnUpdate 9 fullStore ''a1'' ?b1 ?a1 = Inr fullStore" by blast
  from h 1 2 show ?thesis by blast
qed

text \<open>
  Claim C8. A run of the archive at the time \<open>now\<close> logs no error, turns to Archived
  exactly the Queued tasks created before \<open>now\<close> minus the retention threshold and changes
  nothing else; a second run at the same time selects nothing and returns the collection
  of the first run, with no error.
\<close>

theorem archive_twice:
  assumes "distinctDocs s"
  shows "snd (archiveOldTasks now s) = None
       \<and> (\<forall>kv \<in> set s. getDoc (fst (archiveOldTasks now s)) (fst kv) =
            Some (if status (snd kv) = BACKLOG \<and> createdOn (snd kv) < now - STALE_TASK_DAYS * 86400000
                  then (snd kv)\<lparr>status := ARCHIVE\<rparr> else snd kv))
       \<and> map fst (fst (archiveOldTasks now s)) = map fst s
       \<and> staleTasksQuery now (fst (archiveOldTasks now s)) = []
       \<and> archiveOldTasks now (fst (archiveOldTasks now s)) = (fst (archiveOldTasks now s), None)"
proof -
  have 1: "archiveOldTasks now s = (archived now s, None)" using assms by (rule archiveOldTasks_eq)
  have 2: "staleTasksQuery now (archived now s) = []" by (rule stale_archived)
  have 3: "archiveOldTasks now (archived now s) = (archived now s, None)"
    using 2 by (simp add: archiveOldTasks_alt)
  have 4: "\<forall>kv \<in> set s. getDoc (archived now s) (fst kv) =
            Some (if status (snd kv) = BACKLOG \<and> createdOn (snd kv) < now - STALE_TASK_DAYS * 86400000
                  then (snd kv)\<lparr>status := ARCHIVE\<rparr> else snd kv)"
    using getDoc_archived [OF assms] by (simp add: cutoffDate_def)
  have 5: "map fst (archived now s) = map fst s" by (rule keys_archived)
  from 1 2 3 4 5 show ?thesis by simp
qed

theorem archive_twice_witness:
  "distinctDocs agedStore
   \<and> map (\<lambda>kv. (fst kv, status (snd kv))) (fst (archiveOldTasks 7776001000 agedStore))
       = [(''o1'', BACKLOG), (''o2'', TODAY), (''o3'', BACKLOG), (''o4'', ARCHIVE), (''o5'', ARCHIVE)]
   \<and> archiveOldTasks 7776001000 (fst (archiveOldTasks 7776001000 agedStore))
       = (fst (archiveOldTasks 7776001000 agedStore), None)"
proof -
  have h: "distinctDocs agedStore" by code_simp
  have e: "map (\<lambda>kv. (fst kv, status (snd kv))) (fst (archiveOldTasks 7776001000 agedStore))
       = [(''o1'', BACKLOG), (''o2'', TODAY), (''o3'', BACKLOG), (''o4'', ARCHIVE), (''o5'', ARCHIVE)]"
    by code_simp
  from archive_twice [OF h, of 7776001000] h e show ?thesis by blast
qed



text \<open>
  Claim C10. Every write of the three batches is an update of the field \<open>status\<close> alone.
  With unique document names, a run of the archive keeps the documents' names, changes
  no field of any task other than \<open>status\<close>, and leaves unchanged every task that its
  query did not select. Where moreover no task's \<open>id\<close> names another document, a run of
  the triage does the same: it leaves unchanged every task that is not Active at the
  demotion and not among the first Queued P1 and P2 tasks of its owner at the promotion.
\<close>

theorem jobs_write_status_only:
  assumes "distinctDocs s"
  shows "(\<forall>w \<in> set (batch1 s). \<exists>d. w = WUpdate d (StatusField BACKLOG))
       \<and> (\<forall>w \<in> set (batch2 s). \<exists>d. w = WUpdate d (StatusField TODAY))
       \<and> (\<forall>w \<in> set (archiveBatch (staleTasksQuery now s)). \<exists>d. w = WUpdate d (StatusField ARCHIVE))
       \<and> map fst (fst (archiveOldTasks now s)) = map fst s
       \<and> (\<forall>kv \<in> set s. \<exists>st. getDoc (fst (archiveOldTasks now s)) (fst kv) = Some ((snd kv)\<lparr>status := st\<rparr>))
       \<and> (\<forall>kv \<in> set s. kv \<notin> set (staleTasksQuery now s) \<longrightarrow>
               getDoc (fst (archiveOldTasks now s)) (fst kv) = Some (snd kv))
       \<and> (noStrayIds s \<longrightarrow>
             map fst (fst (dailyTriage s)) = map fst s
           \<and> (\<forall>kv \<in> set s. \<exists>st. getDoc (fst (dailyTriage s)) (fst kv) = Some ((snd kv)\<lparr>status := st\<rparr>))
           \<and> (\<exists>s1. demoteToday s = Inr s1 \<and>
                (\<forall>kv \<in> set s. kv \<notin> set (todayTasksQuery s)
                     \<and> kv \<notin> set (firstQueued s1 (owner (snd kv)) P1 (p1MaxToday DEFAULT_WIP_LIMITS))
                     \<and> kv \<notin> set (firstQueued s1 (owner (snd kv)) P2 (p2MaxToday DEFAULT_WIP_LIMITS)) \<longrightarrow>
                   getDoc (fst (dailyTriage s)) (fst kv) = Some (snd kv))))"
proof -
  note d = assms
  have arc: "archiveOldTasks now s = (archived now s, None)" using d by (rule archiveOldTasks_eq)
  have c1: "\<forall>w \<in> set (batch1 s). \<exists>d. w = WUpdate d (StatusField BACKLOG)"
    by (blast dest: batch1_writes)
  have c2: "\<forall>w \<in> set (batch2 s). \<exists>d. w = WUpdate d (StatusField TODAY)"
    by (blast dest: batch2_writes)
  have c3: "\<forall>w \<in> set (archiveBatch (staleTasksQuery now s)). \<exists>d. w = WUpdate d (StatusField ARCHIVE)"
    by (blast dest: archiveBatch_writes)
  have c5: "map fst (fst (archiveOldTasks now s)) = map fst s"
    by (simp add: arc keys_archived)
  have c7: "\<forall>kv \<in> set s. \<exists>st. getDoc (fst (archiveOldTasks now s)) (fst kv) = Some ((snd kv)\<lparr>status := st\<rparr>)"
  proof
    fix kv assume m: "kv \<in> set s"
    have "(snd kv)\<lparr>status := status (snd kv)\<rparr> = snd kv" by (simp add: status_same)
    then have "\<exists>st. snd kv = (snd kv)\<lparr>status := st\<rparr>" by metis
    with getDoc_archived [OF d m, of now]
    show "\<exists>st. getDoc (fst (archiveOldTasks now s)) (fst kv) = Some ((snd kv)\<lparr>status := st\<rparr>)"
      by (auto simp: arc)
  qed
  have c9: "\<forall>kv \<in> set s. kv \<notin> set (staleTasksQuery now s) \<longrightarrow>
               getDoc (fst (archiveOldTasks now s)) (fst kv) = Some (snd kv)"
  proof (intro ballI impI)
    fix kv assume m: "kv \<in> set s" and h: "kv \<notin> set (staleTasksQuery now s)"
    from m h have "\<not> (status (snd kv) = BACKLOG \<and> createdOn (snd kv) < cutoffDate now)"
      by (auto simp: staleTasksQuery_def)
    with getDoc_archived [OF d m, of now]
    show "getDoc (fst (archiveOldTasks now s)) (fst kv) = Some (snd kv)" by (simp add: arc)
  qed
  have tri: "noStrayIds s \<longrightarrow>
             map fst (fst (dailyTriage s)) = map fst s
           \<and> (\<forall>kv \<in> set s. \<exists>st. getDoc (fst (dailyTriage s)) (fst kv) = Some ((snd kv)\<lparr>status := st\<rparr>))
           \<and> (\<exists>s1. demoteToday s = Inr s1 \<and>
                (\<forall>kv \<in> set s. kv \<notin> set (todayTasksQuery s)
                     \<and> kv \<notin> set (firstQueued s1 (owner (snd kv)) P1 (p1MaxToday DEFAULT_WIP_LIMITS))
                     \<and> kv \<notin> set (firstQueued s1 (owner (snd kv)) P2 (p2MaxToday DEFAULT_WIP_LIMITS)) \<longrightarrow>
                   getDoc (fst (dailyTriage s)) (fst kv) = Some (snd kv)))"
  proof
    assume n: "noStrayIds s"
    have c4: "map fst (fst (dailyTriage s)) = map fst s"
      by (simp add: dailyTriage_cases [OF d n] keys_promoted keys_demoted)
    have c6: "\<forall>kv \<in> set s. \<exists>st. getDoc (fst (dailyTriage s)) (fst kv) = Some ((snd kv)\<lparr>status := st\<rparr>)"
    proof
      fix kv assume m: "kv \<in> set s"
      have "(snd kv)\<lparr>status := status (snd kv)\<rparr> = snd kv" by (simp add: status_same)
      then have "\<exists>st. snd kv = (snd kv)\<lparr>status := st\<rparr>" by metis
      with getDoc_triage [OF d n m]
      show "\<exists>st. getDoc (fst (dailyTriage s)) (fst kv) = Some ((snd kv)\<lparr>status := st\<rparr>)"
        by (auto simp: Let_def)
    qed
    have "\<forall>kv \<in> set s. kv \<notin> set (todayTasksQuery s)
             \<and> kv \<notin> set (firstQueued (demoted s) (owner (snd kv)) P1 (p1MaxToday DEFAULT_WIP_LIMITS))
             \<and> kv \<notin> set (firstQueued (demoted s) (owner (snd kv)) P2 (p2MaxToday DEFAULT_WIP_LIMITS)) \<longrightarrow>
           getDoc (fst (dailyTriage s)) (fst kv) = Some (snd kv)"
    proof (intro ballI impI)
      fix kv assume m: "kv \<in> set s"
        and h: "kv \<notin> set (todayTasksQuery s)
             \<and> kv \<notin> set (firstQueued (demoted s) (owner (snd kv)) P1 (p1MaxToday DEFAULT_WIP_LIMITS))
             \<and> kv \<notin> set (firstQueued (demoted s) (owner (snd kv)) P2 (p2MaxToday DEFAULT_WIP_LIMITS))"
      from m h have nt: "status (snd kv) \<noteq> TODAY" by (auto simp: todayTasksQuery_def)
      from h have "\<not> promotable (demoted s) kv" by (simp add: promotable_def)
      with getDoc_triage [OF d n m] nt
      show "getDoc (fst (dailyTriage s)) (fst kv) = Some (snd kv)" by (simp add: Let_def)
    qed
    with demoteToday_eq [OF d] have c8: "\<exists>s1. demoteToday s = Inr s1 \<and>
                (\<forall>kv \<in> set s. kv \<notin> set (todayTasksQuery s)
                     \<and> kv \<notin> set (firstQueued s1 (owner (snd kv)) P1 (p1MaxToday DEFAULT_WIP_LIMITS))
                     \<and> kv \<notin> set (firstQueued s1 (owner (snd kv)) P2 (p2MaxToday DEFAULT_WIP_LIMITS)) \<longrightarrow>
                   getDoc (fst (dailyTriage s)) (fst kv) = Some (snd kv))"
      by blast
    from c4 c6 c8 show "map fst (fst (dailyTriage s)) = map fst s
           \<and> (\<forall>kv \<in> set s. \<exists>st. getDoc (fst (dailyTriage s)) (fst kv) = Some ((snd kv)\<lparr>status := st\<rparr>))
           \<and> (\<exists>s1. demoteToday s = Inr s1 \<and>
                (\<forall>kv \<in> set s. kv \<notin> set (todayTasksQuery s)
                     \<and> kv \<notin> set (firstQueued s1 (owner (snd kv)) P1 (p1MaxToday DEFAULT_WIP_LIMITS))
                     \<and> kv \<notin> set (firstQueued s1 (owner (snd kv)) P2 (p2MaxToday DEFAULT_WIP_LIMITS)) \<longrightarrow>
                   getDoc (fst (dailyTriage s)) (fst kv) = Some (snd kv)))"
      by blast
  qed
  from c1 c2 c3 c5 c7 c9 tri show ?thesis by blast
qed

theorem jobs_write_status_only_witness:
  "distinctDocs agedStore
   \<and> exampleTask ''o1'' ''U'' P1 BACKLOG 1000 \<in> set agedStore
   \<and> exampleTask ''o1'' ''U'' P1 BACKLOG 1000 \<notin> set (staleTasksQuery 7776001000 agedStore)
   \<and> getDoc (fst (archiveOldTasks 7776001000 agedStore)) ''o1''
       = Some (snd (exampleTask ''o1'' ''U'' P1 BACKLOG 1000))
   \<and> batch1 agedStore = [WUpdate ''o2'' (StatusField BACKLOG)]
   \<and> distinctDocs clientStore \<and> noStrayIds clientStore
   \<and> map fst (fst (dailyTriage clientStore)) = map fst clientStore
   \<and> (''t8'', clientTask ''V'' P4 BACKLOG 0) \<in> set clientStore
   \<and> (''t8'', clientTask ''V'' P4 BACKLOG 0) \<notin> set (todayTasksQuery clientStore)
   \<and> getDoc (fst (dailyTriage clientStore)) ''t8'' = Some (clientTask ''V'' P4 BACKLOG 0)"
proof -
  let ?k = "exampleTask ''o1'' ''U'' P1 BACKLOG 1000"
  let ?c = "(''t8'', clientTask ''V'' P4 BACKLOG 0)"
  have h: "distinctDocs agedStore" by code_simp
  have m: "?k \<in> set agedStore" by code_simp
  have n: "?k \<notin> set (staleTasksQuery 7776001000 agedStore)" by code_simp
  have b: "batch1 agedStore = [WUpdate ''o2'' (StatusField BACKLOG)]" by code_simp
  note j = jobs_write_status_only [OF h, of 7776001000]
  from j m n have 1: "getDoc (fst (archiveOldTasks 7776001000 agedStore)) (fst ?k) = Some (snd ?k)"
    by blast
  have f: "fst ?k = ''o1''" by (simp add: exampleTask_def)
  have ch: "distinctDocs clientStore" and cn: "noStrayIds clientStore" by code_simp+
  have cm: "?c \<in> set clientStore" by (simp add: clientStore_def)
  have ct: "?c \<notin> set (todayTasksQuery clientStore)" by code_simp
  have cd: "demoteToday clientStore = Inr (demoted clientStore)" by code_simp
  have cq: "?c \<notin> set (firstQueued (demoted clientStore) (owner (snd ?c)) P1 (p1MaxToday DEFAULT_WIP_LIMITS))
          \<and> ?c \<notin> set (firstQueued (demoted clientStore) (owner (snd ?c)) P2 (p2MaxToday DEFAULT_WIP_LIMITS))"
    by code_simp
  note k = jobs_write_status_only [OF ch, of 0]
  from k cn have 2: "map fst (fst (dailyTriage clientStore)) = map fst clientStore" by blast
  from k cn obtain s1 where s1: "demoteToday clientStore = Inr s1"
    and fr: "\<forall>kv \<in> set clientStore. kv \<notin> set (todayTasksQuery clientStore)
                     \<and> kv \<notin> set (firstQueued s1 (owner (snd kv)) P1 (p1MaxToday DEFAULT_WIP_LIMITS))
                     \<and> kv \<notin> set (firstQueued s1 (owner (snd kv)) P2 (p2MaxToday DEFAULT_WIP_LIMITS)) \<longrightarrow>
                   getDoc (fst (dailyTriage clientStore)) (fst kv) = Some (snd kv)"
    by blast
  from s1 cd have "s1 = demoted clientStore" by simp
  with fr cm ct cq have 3: "getDoc (fst (dailyTriage clientStore)) (fst ?c) = Some (snd ?c)" by blast
  from h m n 1 b f ch cn 2 cm ct 3 show ?thesis by simp
qed

end
